theory Spec2Isabelle
  imports Main "HOL-Library.Sublist" "HOL-Library.AList"
begin

section \<open>Agent manager (worker/agents/AgentManager.ts)\<close>

text \<open>
  The manager owns \<open>agents = new Map<string, SmartCodeGeneratorAgent>()\<close>. The agent class
  itself is not part of the sources at hand, so an agent is a value of an arbitrary type
  \<open>'agent\<close>, and the outcome of "construct, then \<open>await agent.initialize(initArgs, 'deterministic')\<close>"
  is given from outside: it either throws (\<open>Inl\<close>) or yields the initialised agent.

  \<open>createAgent\<close> is an \<open>async\<close> function with one \<open>await\<close>. It therefore runs in two
  uninterrupted pieces, and other code of the same worker, another \<open>createAgent\<close> included, may
  run between them:

    \<^item> \<open>createAgent_start\<close>, from the call to the \<open>await\<close>: read the id, test
      \<open>this.agents.has(agentId)\<close>, throw if it is there, otherwise construct the agent and
      suspend on \<open>agent.initialize\<close>;
    \<^item> \<open>createAgent_resume\<close>, from the settled \<open>await\<close> to the end: rethrow when \<open>initialize\<close>
      rejected, otherwise \<open>this.agents.set(agentId, agent)\<close> on the registry as it is \<^emph>\<open>then\<close>
      and return the agent. The id is not tested again.
\<close>

record InferenceContext =
  agentId :: string
  userId :: string

record AgentInitArgs =
  query :: string
  hostname :: string
  inferenceContext :: InferenceContext

datatype js_error = Error string

type_synonym 'agent agent_map = "string \<rightharpoonup> 'agent"

definition getAgent :: "'agent agent_map \<Rightarrow> string \<Rightarrow> 'agent option" where
  "getAgent agents aid = agents aid"

definition createAgent_start :: "'agent agent_map \<Rightarrow> AgentInitArgs \<Rightarrow> js_error + string" where
  "createAgent_start agents initArgs =
     (let aid = agentId (inferenceContext initArgs) in
      if agents aid \<noteq> None
      then Inl (Error (''Agent with ID '' @ aid @ '' already exists.''))
      else Inr aid)"

definition createAgent_resume ::
  "js_error + 'agent \<Rightarrow> 'agent agent_map \<Rightarrow> string \<Rightarrow> (js_error + 'agent) \<times> 'agent agent_map" where
  "createAgent_resume initialized agents aid =
     (case initialized of
        Inl e \<Rightarrow> (Inl e, agents)
      | Inr agent \<Rightarrow> (Inr agent, agents(aid \<mapsto> agent)))"

text \<open>
  A call during which nothing else touches the registry: the second piece runs on the registry
  the first piece saw.
\<close>

definition createAgent ::
  "(AgentInitArgs \<Rightarrow> js_error + 'agent) \<Rightarrow> 'agent agent_map \<Rightarrow> AgentInitArgs
     \<Rightarrow> (js_error + 'agent) \<times> 'agent agent_map" where
  "createAgent initialize agents initArgs =
     (case createAgent_start agents initArgs of
        Inl e \<Rightarrow> (Inl e, agents)
      | Inr aid \<Rightarrow> createAgent_resume (initialize initArgs) agents aid)"

text \<open>
  Two calls made one after the other without awaiting the first, as in
  \<open>Promise.all([createAgent(a), createAgent(b)])\<close>: both first pieces run before either
  \<open>await\<close> settles; then the first call resumes, then the second. \<open>init1\<close> and \<open>init2\<close> are what
  the two \<open>initialize\<close> calls settle with. A call that threw in its first piece has nothing to
  resume.
\<close>

definition createAgent_overlapping ::
  "js_error + 'agent \<Rightarrow> js_error + 'agent \<Rightarrow> 'agent agent_map \<Rightarrow> AgentInitArgs \<Rightarrow> AgentInitArgs
     \<Rightarrow> ((js_error + 'agent) \<times> (js_error + 'agent)) \<times> 'agent agent_map" where
  "createAgent_overlapping init1 init2 agents initArgs1 initArgs2 =
     (let started1 = createAgent_start agents initArgs1;
          started2 = createAgent_start agents initArgs2;
          (result1, agents1) = (case started1 of
                                  Inl e \<Rightarrow> (Inl e, agents)
                                | Inr aid \<Rightarrow> createAgent_resume init1 agents aid);
          (result2, agents2) = (case started2 of
                                  Inl e \<Rightarrow> (Inl e, agents1)
                                | Inr aid \<Rightarrow> createAgent_resume init2 agents1 aid)
      in ((result1, result2), agents2))"

definition args_for :: "string \<Rightarrow> AgentInitArgs" where
  "args_for aid = \<lparr>query = ''build a todo app'', hostname = ''localhost'',
                   inferenceContext = \<lparr>agentId = aid, userId = ''u1''\<rparr>\<rparr>"

section \<open>Local sandbox (worker/services/sandbox/LocalSandbox.ts)\<close>

subsection \<open>JavaScript values that reach \<open>exitCode\<close>\<close>






text \<open>\<open>String.prototype.includes\<close>: does \<open>sub\<close> occur in \<open>s\<close> as a contiguous substring.\<close>

fun str_includes :: "string \<Rightarrow> string \<Rightarrow> bool" where
  "str_includes [] sub = (sub = [])"
| "str_includes (c # cs) sub = (prefix sub (c # cs) \<or> str_includes cs sub)"


text \<open>
  \<open>options?.cwd || this.getBasePath()\<close>: an absent or empty \<open>cwd\<close> falls back to the base
  path (\<open>process.cwd()\<close>, the parameter \<open>basePath\<close>).
\<close>

definition cwd_or_base :: "string \<Rightarrow> string option \<Rightarrow> string" where
  "cwd_or_base basePath cwd = (case cwd of None \<Rightarrow> basePath | Some d \<Rightarrow> if d = [] then basePath else d)"



subsection \<open>Node's \<open>path.join\<close> (POSIX)\<close>

text \<open>
  \<open>path.join\<close> belongs to the Node.js platform library, not to the repository; it is
  written out here after its documentation and reference implementation:
  the non-empty arguments are joined with \<open>/\<close> and the result is normalised.
  \<open>normalize\<close> resolves \<open>.\<close> and \<open>..\<close> segments and collapses repeated separators;
  above the root of an absolute path a \<open>..\<close> is dropped, in a relative path it is kept.
\<close>

fun split_sep :: "string \<Rightarrow> string list" where
  "split_sep [] = [[]]"
| "split_sep (c # cs) =
     (if c = CHR ''/'' then [] # split_sep cs
      else (case split_sep cs of [] \<Rightarrow> [[c]] | s # ss \<Rightarrow> (c # s) # ss))"

fun join_sep :: "string list \<Rightarrow> string" where
  "join_sep [] = []"
| "join_sep [s] = s"
| "join_sep (s # t # ss) = s @ ''/'' @ join_sep (t # ss)"

fun normalizeString :: "bool \<Rightarrow> string list \<Rightarrow> string list \<Rightarrow> string list" where
  "normalizeString allowAboveRoot res [] = res"
| "normalizeString allowAboveRoot res (s # ss) =
     (if s = [] \<or> s = ''.'' then normalizeString allowAboveRoot res ss
      else if s = ''..'' then
        (if res \<noteq> [] \<and> last res \<noteq> ''..'' then normalizeString allowAboveRoot (butlast res) ss
         else if allowAboveRoot then normalizeString allowAboveRoot (res @ [''..'']) ss
         else normalizeString allowAboveRoot res ss)
      else normalizeString allowAboveRoot (res @ [s]) ss)"

definition normalize :: "string \<Rightarrow> string" where
  "normalize p =
     (if p = [] then ''.''
      else let isAbsolute = (hd p = CHR ''/'');
               trailingSeparator = (last p = CHR ''/'');
               body = join_sep (normalizeString (\<not> isAbsolute) [] (split_sep p))
           in if body = []
              then (if isAbsolute then ''/'' else if trailingSeparator then ''./'' else ''.'')
              else (if isAbsolute then ''/'' else []) @ body @ (if trailingSeparator then ''/'' else []))"

definition path_join :: "string list \<Rightarrow> string" where
  "path_join args =
     (let parts = filter (\<lambda>s. s \<noteq> []) args
      in if parts = [] then ''.'' else normalize (join_sep parts))"

subsection \<open>File operations of the sandbox\<close>

text \<open>
  The file system is a map from absolute paths to contents; \<open>cwd\<close> stands for
  \<open>process.cwd()\<close>. \<open>fs.mkdir(..., {recursive: true})\<close> followed by \<open>fs.writeFile\<close> stores
  the content under the path; \<open>fs.readFile\<close> of a path that holds nothing rejects (ENOENT).
\<close>

type_synonym filesystem = "string \<rightharpoonup> string"

definition getBasePath :: "string \<Rightarrow> string" where
  "getBasePath cwd = path_join [cwd]"

record WriteFileResult =
  wr_success :: bool
  wr_path :: string
  wr_error :: "string option"

record ReadFileResult =
  rd_success :: bool
  rd_content :: string
  rd_error :: "string option"
  rd_exitCode :: int

definition writeFile :: "string \<Rightarrow> filesystem \<Rightarrow> string \<Rightarrow> string \<Rightarrow> WriteFileResult \<times> filesystem" where
  "writeFile cwd files filePath content =
     (let fullPath = path_join [getBasePath cwd, filePath] in
      if str_includes fullPath ''..''
      then (\<lparr>wr_success = False, wr_path = filePath,
              wr_error = Some ''Directory traversal is not allowed.''\<rparr>, files)
      else (\<lparr>wr_success = True, wr_path = filePath, wr_error = None\<rparr>,
            files(fullPath \<mapsto> content)))"

definition readFile :: "string \<Rightarrow> filesystem \<Rightarrow> string \<Rightarrow> ReadFileResult" where
  "readFile cwd files filePath =
     (let fullPath = path_join [getBasePath cwd, filePath] in
      if str_includes fullPath ''..''
      then \<lparr>rd_success = False, rd_content = [],
             rd_error = Some ''Directory traversal is not allowed.'', rd_exitCode = 1\<rparr>
      else (case files fullPath of
              None \<Rightarrow> \<lparr>rd_success = False, rd_content = [],
                        rd_error = Some (''ENOENT: no such file or directory, open '' @ fullPath),
                        rd_exitCode = 1\<rparr>
            | Some content \<Rightarrow> \<lparr>rd_success = True, rd_content = content,
                                rd_error = None, rd_exitCode = 0\<rparr>))"

text \<open>
  \<open>startProcess\<close> guards the raw \<open>cwd\<close> outside any \<open>try\<close>, so the guard rejects the
  promise; \<open>spawn\<close> (which yields the process id) is a parameter.
\<close>

definition startProcess ::
  "(string \<Rightarrow> string \<Rightarrow> string) \<Rightarrow> string \<Rightarrow> string \<Rightarrow> string option \<Rightarrow> js_error + string" where
  "startProcess spawn basePath command cwd =
     (let d = cwd_or_base basePath cwd in
      if str_includes d ''..'' then Inl (Error ''Directory traversal is not allowed.'')
      else Inr (spawn command d))"


section \<open>Conversation log (worker/agents/core, \<open>BaseAgentBehavior\<close>)\<close>

datatype message_role = System | User | Assistant

record ConversationMessage =
  conversationId :: string
  role :: message_role
  content :: string

record ConversationState =
  cs_id :: string
  runningHistory :: "ConversationMessage list"
  fullHistory :: "ConversationMessage list"

text \<open>
  The \<open>messages\<close> column of \<open>full_conversations\<close> and \<open>compact_conversations\<close> holds JSON
  text. What \<open>JSON.parse\<close> makes of it is one of three things: it throws (or the text is
  empty), it yields something that is not an array, or it yields an array of messages.
  \<open>JSON.stringify\<close> of a message list is stored as the third.
\<close>

datatype json_text = Malformed | NotAnArray | MessageArray "ConversationMessage list"

record conversation_store =
  conversationMessages :: "ConversationMessage list"
  full_conversations :: "string \<rightharpoonup> json_text"
  compact_conversations :: "string \<rightharpoonup> json_text"

definition DEFAULT_CONVERSATION_SESSION_ID :: string where
  "DEFAULT_CONVERSATION_SESSION_ID = ''default''"

definition parse_rows :: "(string \<rightharpoonup> json_text) \<Rightarrow> string \<Rightarrow> ConversationMessage list" where
  "parse_rows table sid =
     (case table sid of
        Some (MessageArray parsed) \<Rightarrow> parsed
      | _ \<Rightarrow> [])"

text \<open>The filter of \<open>deduplicateMessages\<close>, with its \<open>seen\<close> set threaded through.\<close>

fun dedup_seen :: "string set \<Rightarrow> ConversationMessage list \<Rightarrow> ConversationMessage list" where
  "dedup_seen seen [] = []"
| "dedup_seen seen (msg # msgs) =
     (if conversationId msg \<in> seen then dedup_seen seen msgs
      else msg # dedup_seen (insert (conversationId msg) seen) msgs)"

definition deduplicateMessages :: "ConversationMessage list \<Rightarrow> ConversationMessage list" where
  "deduplicateMessages messages = dedup_seen {} messages"

definition getConversationState :: "conversation_store \<Rightarrow> string \<Rightarrow> ConversationState" where
  "getConversationState st sid =
     (let currentConversation = conversationMessages st;
          fullParsed = parse_rows (full_conversations st) sid;
          fullH = (if fullParsed = [] then currentConversation else fullParsed);
          runningParsed = parse_rows (compact_conversations st) sid;
          runningH = (if runningParsed = [] then currentConversation else runningParsed)
      in \<lparr>cs_id = sid,
          runningHistory = deduplicateMessages runningH,
          fullHistory = deduplicateMessages fullH\<rparr>)"

definition setConversationState :: "conversation_store \<Rightarrow> ConversationState \<Rightarrow> conversation_store" where
  "setConversationState st conversations =
     st\<lparr>compact_conversations :=
          (compact_conversations st)(cs_id conversations \<mapsto> MessageArray (runningHistory conversations)),
        full_conversations :=
          (full_conversations st)(cs_id conversations \<mapsto> MessageArray (fullHistory conversations))\<rparr>"

text \<open>
  \<open>addConversationMessage\<close> treats both histories alike: \<open>push\<close> when \<open>find\<close> sees no
  message with the id, otherwise \<open>map\<close> every message with that id to the new one.
\<close>

definition push_or_replace :: "ConversationMessage list \<Rightarrow> ConversationMessage \<Rightarrow> ConversationMessage list" where
  "push_or_replace history message =
     (if find (\<lambda>msg. conversationId msg = conversationId message) history = None
      then history @ [message]
      else map (\<lambda>msg. if conversationId msg = conversationId message then message else msg) history)"

definition addConversationMessage :: "conversation_store \<Rightarrow> ConversationMessage \<Rightarrow> conversation_store" where
  "addConversationMessage st message =
     (let conversationState = getConversationState st DEFAULT_CONVERSATION_SESSION_ID;
          conversationState = conversationState
            \<lparr>runningHistory := push_or_replace (runningHistory conversationState) message\<rparr>;
          conversationState = conversationState
            \<lparr>fullHistory := push_or_replace (fullHistory conversationState) message\<rparr>
      in setConversationState st conversationState)"


section \<open>In-memory rate-limit store (worker/services/rate-limit/InMemoryRateLimitStore.ts)\<close>

text \<open>
  Times are integer milliseconds (\<open>Date.now()\<close>), the configuration holds integer seconds
  and counts. A bucket timestamp is \<open>Math.floor(x / bucketSize) * bucketSize\<close>: an integer
  when the bucket size is not zero, and \<open>NaN\<close> when it is zero (\<open>x / 0\<close> is an infinity or
  \<open>NaN\<close>, and so is its floor; times zero it is \<open>NaN\<close>). The store key
  \<open>`ratelimit:${key}:${time}`\<close> is the pair \<open>(key, time)\<close>: the timestamp follows the last
  colon, so the string determines the pair and back.
\<close>

record Bucket =
  count :: int
  expiresAt :: int

record KVRateLimitConfig =
  limit :: int
  period :: int
  bucketSize :: "int option"
  burst :: "int option"
  burstWindow :: "int option"

record RateLimitResult =
  success :: bool
  remainingLimit :: "int option"

datatype bucket_time = At int | NaN

type_synonym bucket_key = "string \<times> bucket_time"
type_synonym bucket_store = "bucket_key \<rightharpoonup> Bucket"

text \<open>\<open>Math.floor(x / bucketSizeMs) * bucketSizeMs\<close>.\<close>

definition floor_multiple :: "int \<Rightarrow> int \<Rightarrow> bucket_time" where
  "floor_multiple x bucketSizeMs =
     (if bucketSizeMs = 0 then NaN else At (x div bucketSizeMs * bucketSizeMs))"

definition cleanup :: "int \<Rightarrow> bucket_store \<Rightarrow> bucket_store" where
  "cleanup now store =
     (\<lambda>k. case store k of
             None \<Rightarrow> None
           | Some bucket \<Rightarrow> if expiresAt bucket < now then None else Some bucket)"

text \<open>
  The \<open>for\<close> loop of \<open>generateBucketKeys\<close>, from an integer start. Nothing in the source
  bounds it when the bucket size is negative, so it is a partial function: \<open>None\<close> stands for
  a loop that does not return. When the start is \<open>NaN\<close> (bucket size zero) the loop test
  \<open>time <= now\<close> is false at once and the result is the empty list.
\<close>

partial_function (option) bucket_keys_loop ::
  "string \<Rightarrow> int \<Rightarrow> int \<Rightarrow> int \<Rightarrow> bucket_key list \<Rightarrow> bucket_key list option" where
  "bucket_keys_loop key now bucketSizeMs time buckets =
     (if time \<le> now
      then bucket_keys_loop key now bucketSizeMs (time + bucketSizeMs) (buckets @ [(key, At time)])
      else Some buckets)"

declare bucket_keys_loop.simps [code]

definition generateBucketKeys :: "string \<Rightarrow> int \<Rightarrow> int \<Rightarrow> int \<Rightarrow> bucket_key list option" where
  "generateBucketKeys key now windowMs bucketSizeMs =
     (let windowStart = now - windowMs
      in case floor_multiple windowStart bucketSizeMs of
           NaN \<Rightarrow> Some []
         | At time \<Rightarrow> bucket_keys_loop key now bucketSizeMs time [])"

text \<open>The callback of both \<open>reduce\<close> calls, and the reduction itself.\<close>

definition live_count :: "bucket_store \<Rightarrow> int \<Rightarrow> bucket_key \<Rightarrow> int" where
  "live_count store now bucketKey =
     (case store bucketKey of
        None \<Rightarrow> 0
      | Some bucket \<Rightarrow> if expiresAt bucket > now then count bucket else 0)"

definition sum_buckets :: "bucket_store \<Rightarrow> int \<Rightarrow> bucket_key list \<Rightarrow> int" where
  "sum_buckets store now keys = foldl (\<lambda>sum bucketKey. sum + live_count store now bucketKey) 0 keys"

text \<open>\<open>config.burst ? ... : ...\<close> and \<open>config.burst && ...\<close>: an absent or zero burst is falsy.\<close>

definition burst_configured :: "KVRateLimitConfig \<Rightarrow> bool" where
  "burst_configured config = (case burst config of None \<Rightarrow> False | Some b \<Rightarrow> b \<noteq> 0)"

definition or_default :: "int option \<Rightarrow> int \<Rightarrow> int" where
  "or_default v d = (case v of None \<Rightarrow> d | Some x \<Rightarrow> x)"

text \<open>
  \<open>increment\<close>. The argument \<open>cleanupAt\<close> is \<open>Some t\<close> when \<open>Math.random() < 0.1\<close> held
  and \<open>cleanup\<close> read the clock at \<open>t\<close>, \<open>None\<close> when no sweep took place; \<open>now\<close> is the
  clock reading of \<open>increment\<close> itself. No operation inside the \<open>try\<close> block throws on
  these data, so the fail-open \<open>catch\<close> has no branch here.
\<close>

definition increment ::
  "bucket_store \<Rightarrow> int option \<Rightarrow> int \<Rightarrow> string \<Rightarrow> KVRateLimitConfig
     \<Rightarrow> (RateLimitResult \<times> bucket_store) option" where
  "increment store0 cleanupAt now key config =
     (let store = (case cleanupAt of None \<Rightarrow> store0 | Some t \<Rightarrow> cleanup t store0);
          bucketSizeMs = or_default (bucketSize config) 10 * 1000;
          burstWindowMs = or_default (burstWindow config) 60 * 1000;
          mainWindow = period config * 1000;
          currentBucketTimestamp = floor_multiple now bucketSizeMs
      in case generateBucketKeys key now mainWindow bucketSizeMs of
           None \<Rightarrow> None
         | Some mainBuckets \<Rightarrow>
             (case (if burst_configured config
                    then generateBucketKeys key now burstWindowMs bucketSizeMs else Some []) of
                None \<Rightarrow> None
              | Some burstBuckets \<Rightarrow>
                  (let mainCount = sum_buckets store now mainBuckets;
                       burstCount = sum_buckets store now burstBuckets
                   in if mainCount \<ge> limit config
                      then Some (\<lparr>success = False, remainingLimit = Some 0\<rparr>, store)
                      else if burst_configured config \<and> burstCount \<ge> the (burst config)
                      then Some (\<lparr>success = False, remainingLimit = Some 0\<rparr>, store)
                      else
                        (let currentBucketKey = (key, currentBucketTimestamp);
                             maxTtlSeconds = max (period config) (or_default (burstWindow config) 60)
                                              + or_default (bucketSize config) 10;
                             expires = now + maxTtlSeconds * 1000;
                             store' = (case store currentBucketKey of
                                         None \<Rightarrow> store(currentBucketKey \<mapsto> \<lparr>count = 1, expiresAt = expires\<rparr>)
                                       | Some currentBucket \<Rightarrow>
                                           if expiresAt currentBucket > now
                                           then store(currentBucketKey \<mapsto>
                                                  \<lparr>count = count currentBucket + 1, expiresAt = expires\<rparr>)
                                           else store(currentBucketKey \<mapsto> \<lparr>count = 1, expiresAt = expires\<rparr>))
                         in Some (\<lparr>success = True,
                                   remainingLimit = Some (max 0 (limit config - mainCount - 1))\<rparr>,
                                  store')))))"

definition getRemainingLimit :: "bucket_store \<Rightarrow> int \<Rightarrow> string \<Rightarrow> KVRateLimitConfig \<Rightarrow> int option" where
  "getRemainingLimit store now key config =
     (let bucketSizeMs = or_default (bucketSize config) 10 * 1000;
          mainWindow = period config * 1000
      in case generateBucketKeys key now mainWindow bucketSizeMs of
           None \<Rightarrow> None
         | Some mainBuckets \<Rightarrow> Some (max 0 (limit config - sum_buckets store now mainBuckets)))"

text \<open>
  The timestamps the loop visits for a window, as a set: the multiples of the bucket size
  from the bucket that contains the window's start up to the present.
\<close>

definition window_buckets :: "int \<Rightarrow> int \<Rightarrow> int \<Rightarrow> int set" where
  "window_buckets now windowMs bucketSizeMs =
     {t \<in> {(now - windowMs) div bucketSizeMs * bucketSizeMs .. now}. bucketSizeMs dvd t}"

definition window_count :: "bucket_store \<Rightarrow> int \<Rightarrow> string \<Rightarrow> int \<Rightarrow> int \<Rightarrow> int" where
  "window_count store now key windowMs bucketSizeMs =
     (\<Sum>t \<in> window_buckets now windowMs bucketSizeMs. live_count store now (key, At t))"


text \<open>
  The store after the optional sweep, and the side condition that the sweep read the clock
  no later than \<open>increment\<close> did (the sweep comes first in the source).
\<close>

definition swept :: "int option \<Rightarrow> bucket_store \<Rightarrow> bucket_store" where
  "swept cleanupAt store = (case cleanupAt of None \<Rightarrow> store | Some t \<Rightarrow> cleanup t store)"

definition sweep_time_ok :: "int option \<Rightarrow> int \<Rightarrow> bool" where
  "sweep_time_ok cleanupAt now = (case cleanupAt of None \<Rightarrow> True | Some t \<Rightarrow> t \<le> now)"

text \<open>The configuration of the rate-limit trip scenario: limit 2, period 60 s, buckets of 10 s.\<close>

definition trip_config :: KVRateLimitConfig where
  "trip_config = \<lparr>limit = 2, period = 60, bucketSize = Some 10, burst = None, burstWindow = None\<rparr>"

text \<open>The same configuration with \<open>bucketSize: 0\<close>.\<close>

definition zero_bucket_config :: KVRateLimitConfig where
  "zero_bucket_config = \<lparr>limit = 2, period = 60, bucketSize = Some 0, burst = None, burstWindow = None\<rparr>"


section \<open>Phasic build loop (worker/agents/core, \<open>PhasicAgentBehavior\<close>)\<close>

datatype CurrentDevState = IDLE | PHASE_GENERATING | PHASE_IMPLEMENTING | REVIEWING | FINALIZING

definition MAX_PHASES :: int where
  "MAX_PHASES = 12"

record PhaseConcept =
  phaseName :: string
  phaseDescription :: string
  phaseFiles :: "string list"
  lastPhase :: bool

record PhaseState = PhaseConcept +
  completed :: bool

text \<open>
  What the agent does to the outside world and may be observed of a run: the log line
  \<open>Executing state\<close> at the head of every loop iteration, and the \<open>PHASE_IMPLEMENTED\<close>
  broadcast that ends \<open>implementPhase\<close>.
\<close>

datatype build_event = Executing CurrentDevState | PhaseImplemented string

text \<open>
  The part of \<open>PhasicState\<close> that the state machine reads or writes, together with two
  fields of the model: \<open>opCalls\<close> counts the calls made so far to the outside (LLM
  operations, sandbox), and \<open>events\<close> collects the observable events.
\<close>

record PhasicState =
  generatedPhases :: "PhaseState list"
  phasesCounter :: int
  pendingUserInputs :: "string list"
  mvpGenerated :: bool
  reviewingInitiated :: bool
  currentPhase :: "PhaseConcept option"
  initialPhase :: PhaseConcept
  opCalls :: nat
  events :: "build_event list"

text \<open>
  The outside world. Each call either returns, throws \<open>RateLimitExceededError\<close>, or throws
  something else; the answer may depend on how many calls came before. No user input
  arrives while the loop runs: \<open>queueUserRequest\<close> is not called by the loop itself.
\<close>

datatype 'a outcome = Returns 'a | Throws | RateLimitExceeded

record environment =
  fetchAllIssuesOp :: "nat \<Rightarrow> bool outcome"
  generateNextPhaseOp :: "nat \<Rightarrow> PhaseConcept outcome"
  implementPhaseOp :: "nat \<Rightarrow> unit outcome"

datatype thrown = RateLimitExceededError | OtherError

definition tick :: "PhasicState \<Rightarrow> PhasicState" where
  "tick a = a\<lparr>opCalls := Suc (opCalls a)\<rparr>"

definition emit :: "build_event \<Rightarrow> PhasicState \<Rightarrow> PhasicState" where
  "emit e a = a\<lparr>events := events a @ [e]\<rparr>"

definition rechargePhasesCounter :: "int \<Rightarrow> PhasicState \<Rightarrow> PhasicState" where
  "rechargePhasesCounter max_phases a =
     (if phasesCounter a \<le> max_phases then a\<lparr>phasesCounter := max_phases\<rparr> else a)"

definition decrementPhasesCounter :: "PhasicState \<Rightarrow> int \<times> PhasicState" where
  "decrementPhasesCounter a =
     (let counter = phasesCounter a - 1 in (counter, a\<lparr>phasesCounter := counter\<rparr>))"

definition createNewIncompletePhase :: "PhaseConcept \<Rightarrow> PhasicState \<Rightarrow> PhasicState" where
  "createNewIncompletePhase phaseConcept a =
     a\<lparr>generatedPhases := generatedPhases a @ [PhaseConcept.extend phaseConcept \<lparr>completed = False\<rparr>]\<rparr>"

definition markPhaseComplete :: "string \<Rightarrow> PhasicState \<Rightarrow> PhasicState" where
  "markPhaseComplete name a =
     (if \<not> list_ex (\<lambda>p. phaseName p = name) (generatedPhases a) then a
      else a\<lparr>generatedPhases :=
              map (\<lambda>p. if phaseName p = name then p\<lparr>completed := True\<rparr> else p) (generatedPhases a)\<rparr>)"

definition queueUserRequest :: "string \<Rightarrow> PhasicState \<Rightarrow> PhasicState" where
  "queueUserRequest request a =
     (let a = rechargePhasesCounter 3 a
      in a\<lparr>pendingUserInputs := pendingUserInputs a @ [request]\<rparr>)"

definition fetchPendingUserRequests :: "PhasicState \<Rightarrow> string list \<times> PhasicState" where
  "fetchPendingUserRequests a =
     (let inputs = pendingUserInputs a
      in (inputs, if inputs \<noteq> [] then a\<lparr>pendingUserInputs := []\<rparr> else a))"

text \<open>
  \<open>generateNextPhase\<close>: the operation's answer with no files means "no next phase";
  otherwise the phase is recorded as incomplete. (The install and delete commands it may
  start do not touch the fields above.)
\<close>

definition generateNextPhase ::
  "environment \<Rightarrow> PhasicState \<Rightarrow> (thrown + PhaseConcept option) \<times> PhasicState" where
  "generateNextPhase env a =
     (case generateNextPhaseOp env (opCalls a) of
        Throws \<Rightarrow> (Inl OtherError, tick a)
      | RateLimitExceeded \<Rightarrow> (Inl RateLimitExceededError, tick a)
      | Returns result \<Rightarrow>
          if phaseFiles result = [] then (Inr None, tick a)
          else (Inr (Some result), createNewIncompletePhase result (tick a)))"

text \<open>
  \<open>implementPhase\<close>: whatever fails inside (the operation, saving, deploying, fixing)
  throws before the \<open>PHASE_IMPLEMENTED\<close> broadcast and \<open>markPhaseComplete\<close>.
\<close>

definition implementPhase ::
  "environment \<Rightarrow> PhaseConcept \<Rightarrow> PhasicState \<Rightarrow> (thrown + unit) \<times> PhasicState" where
  "implementPhase env phase a =
     (case implementPhaseOp env (opCalls a) of
        Throws \<Rightarrow> (Inl OtherError, tick a)
      | RateLimitExceeded \<Rightarrow> (Inl RateLimitExceededError, tick a)
      | Returns _ \<Rightarrow>
          (Inr (), markPhaseComplete (phaseName phase) (emit (PhaseImplemented (phaseName phase)) (tick a))))"

definition fetchAllIssues :: "environment \<Rightarrow> PhasicState \<Rightarrow> (thrown + bool) \<times> PhasicState" where
  "fetchAllIssues env a =
     (case fetchAllIssuesOp env (opCalls a) of
        Throws \<Rightarrow> (Inl OtherError, tick a)
      | RateLimitExceeded \<Rightarrow> (Inl RateLimitExceededError, tick a)
      | Returns issuesFound \<Rightarrow> (Inr issuesFound, tick a))"

text \<open>
  The \<open>execute...\<close> methods return \<open>Inl\<close> when they throw (only the rate-limit error
  leaves \<open>executePhaseGeneration\<close> and \<open>executePhaseImplementation\<close>; any other error is
  caught there and turns into the state \<open>IDLE\<close>).
\<close>

definition executePhaseGeneration ::
  "environment \<Rightarrow> PhasicState \<Rightarrow> (thrown + CurrentDevState \<times> PhaseConcept option) \<times> PhasicState" where
  "executePhaseGeneration env a =
     (case fetchAllIssues env a of
        (Inl RateLimitExceededError, a1) \<Rightarrow> (Inl RateLimitExceededError, a1)
      | (Inl OtherError, a1) \<Rightarrow> (Inr (IDLE, None), a1)
      | (Inr currentIssues, a1) \<Rightarrow>
          (let (pendingInputs, a2) = fetchPendingUserRequests a1
           in case generateNextPhase env a2 of
                (Inl RateLimitExceededError, a3) \<Rightarrow> (Inl RateLimitExceededError, a3)
              | (Inl OtherError, a3) \<Rightarrow> (Inr (IDLE, None), a3)
              | (Inr None, a3) \<Rightarrow> (Inr (FINALIZING, None), a3)
              | (Inr (Some nextPhase), a3) \<Rightarrow>
                  (Inr (PHASE_IMPLEMENTING, Some nextPhase), a3\<lparr>currentPhase := Some nextPhase\<rparr>)))"

text \<open>
  The tail of \<open>executePhaseImplementation\<close>, once the phase to implement is known. The
  issues are fetched from the sandbox when there is a sandbox instance; without one the
  source makes no call, which an environment that answers \<open>Returns\<close> at that call
  reproduces.
\<close>

definition implement_known_phase ::
  "environment \<Rightarrow> PhaseConcept \<Rightarrow> PhasicState \<Rightarrow> (thrown + CurrentDevState) \<times> PhasicState" where
  "implement_known_phase env phaseConcept a =
     (let a0 = a\<lparr>currentPhase := None\<rparr>
      in case fetchAllIssues env a0 of
           (Inl RateLimitExceededError, a1) \<Rightarrow> (Inl RateLimitExceededError, a1)
         | (Inl OtherError, a1) \<Rightarrow> (Inr IDLE, a1)
         | (Inr currentIssues, a1) \<Rightarrow>
             (case implementPhase env phaseConcept a1 of
                (Inl RateLimitExceededError, a2) \<Rightarrow> (Inl RateLimitExceededError, a2)
              | (Inl OtherError, a2) \<Rightarrow> (Inr IDLE, a2)
              | (Inr _, a2) \<Rightarrow>
                  (let (counter, a3) = decrementPhasesCounter a2
                   in if (lastPhase phaseConcept \<or> counter \<le> 0) \<and> pendingUserInputs a3 = []
                      then (Inr FINALIZING, a3)
                      else (Inr PHASE_GENERATING, a3))))"

definition executePhaseImplementation ::
  "environment \<Rightarrow> PhaseConcept option \<Rightarrow> PhasicState \<Rightarrow> (thrown + CurrentDevState) \<times> PhasicState" where
  "executePhaseImplementation env phaseConcept a =
     (case phaseConcept of
        Some p \<Rightarrow> implement_known_phase env p a
      | None \<Rightarrow>
          (case currentPhase a of
             Some p \<Rightarrow> implement_known_phase env p a
           | None \<Rightarrow>
               (case executePhaseGeneration env a of
                  (Inl RateLimitExceededError, a1) \<Rightarrow> (Inl RateLimitExceededError, a1)
                | (Inl OtherError, a1) \<Rightarrow> (Inr IDLE, a1)
                | (Inr (_, None), a1) \<Rightarrow> (Inr FINALIZING, a1)
                | (Inr (_, Some p), a1) \<Rightarrow> implement_known_phase env p a1)))"

definition finalPhaseConcept :: PhaseConcept where
  "finalPhaseConcept =
     \<lparr>phaseName = ''Finalization and Review'',
      phaseDescription = ''Full polishing and final review of the application'',
      phaseFiles = [], lastPhase = True\<rparr>"

definition executeFinalizing ::
  "environment \<Rightarrow> PhasicState \<Rightarrow> (thrown + CurrentDevState) \<times> PhasicState" where
  "executeFinalizing env a =
     (if mvpGenerated a then (Inr REVIEWING, a)
      else let a1 = createNewIncompletePhase finalPhaseConcept (a\<lparr>mvpGenerated := True\<rparr>)
           in case fetchAllIssues env a1 of
                (Inl e, a2) \<Rightarrow> (Inl e, a2)
              | (Inr currentIssues, a2) \<Rightarrow>
                  (case implementPhase env finalPhaseConcept a2 of
                     (Inl e, a3) \<Rightarrow> (Inl e, a3)
                   | (Inr _, a3) \<Rightarrow> (Inr REVIEWING, a3)))"

definition executeReviewCycle ::
  "environment \<Rightarrow> PhasicState \<Rightarrow> (thrown + CurrentDevState) \<times> PhasicState" where
  "executeReviewCycle env a =
     (if reviewingInitiated a then (Inr IDLE, a)
      else case fetchAllIssues env (a\<lparr>reviewingInitiated := True\<rparr>) of
             (Inl e, a1) \<Rightarrow> (Inl e, a1)
           | (Inr issuesFound, a1) \<Rightarrow> (Inr IDLE, a1))"

text \<open>
  One iteration of the \<open>while (currentDevState !== IDLE)\<close> loop: the log line and the
  \<open>switch\<close>. The loop variable \<open>phaseConcept\<close> is only assigned in the generating case.
\<close>

definition loop_body ::
  "environment \<Rightarrow> CurrentDevState \<Rightarrow> PhaseConcept option \<Rightarrow> PhasicState
     \<Rightarrow> (thrown + CurrentDevState \<times> PhaseConcept option) \<times> PhasicState" where
  "loop_body env currentDevState phaseConcept a =
     (let a0 = emit (Executing currentDevState) a
      in case currentDevState of
           PHASE_GENERATING \<Rightarrow> executePhaseGeneration env a0
         | PHASE_IMPLEMENTING \<Rightarrow>
             (case executePhaseImplementation env phaseConcept a0 of
                (Inl e, a1) \<Rightarrow> (Inl e, a1)
              | (Inr next, a1) \<Rightarrow> (Inr (next, phaseConcept), a1))
         | REVIEWING \<Rightarrow>
             (case executeReviewCycle env a0 of
                (Inl e, a1) \<Rightarrow> (Inl e, a1)
              | (Inr next, a1) \<Rightarrow> (Inr (next, phaseConcept), a1))
         | FINALIZING \<Rightarrow>
             (case executeFinalizing env a0 of
                (Inl e, a1) \<Rightarrow> (Inl e, a1)
              | (Inr next, a1) \<Rightarrow> (Inr (next, phaseConcept), a1))
         | IDLE \<Rightarrow> (Inr (IDLE, phaseConcept), a0))"

text \<open>The measure that every iteration decreases.\<close>

definition loop_measure :: "CurrentDevState \<Rightarrow> PhasicState \<Rightarrow> nat" where
  "loop_measure currentDevState a =
     (let c = nat (phasesCounter a); p = (if pendingUserInputs a = [] then 0 else 1)
      in case currentDevState of
           IDLE \<Rightarrow> 0
         | REVIEWING \<Rightarrow> 1
         | FINALIZING \<Rightarrow> 2
         | PHASE_IMPLEMENTING \<Rightarrow> 3 * c + 6 * p + 4
         | PHASE_GENERATING \<Rightarrow> 3 * c + 3 * p + 5)"


subsection \<open>What each step leaves unchanged\<close>

text \<open>
  Facts about the steps of the loop body that its termination rests on: the operations
  leave the counter and the pending inputs alone, generation drains the pending inputs, and
  an implementation that sends the loop back to generating has decremented the counter.
\<close>

lemma fetchAllIssues_fields:
  "fetchAllIssues env a = (r, a') \<Longrightarrow>
     phasesCounter a' = phasesCounter a \<and> pendingUserInputs a' = pendingUserInputs a
     \<and> events a' = events a"
  by (auto simp: fetchAllIssues_def tick_def split: outcome.splits)

lemma generateNextPhase_fields:
  "generateNextPhase env a = (r, a') \<Longrightarrow>
     phasesCounter a' = phasesCounter a \<and> pendingUserInputs a' = pendingUserInputs a
     \<and> events a' = events a"
  by (auto simp: generateNextPhase_def tick_def createNewIncompletePhase_def
           split: outcome.splits if_splits)

lemma implementPhase_fields:
  "implementPhase env p a = (r, a') \<Longrightarrow>
     phasesCounter a' = phasesCounter a \<and> pendingUserInputs a' = pendingUserInputs a
     \<and> events a' = events a @ (case r of Inl _ \<Rightarrow> [] | Inr _ \<Rightarrow> [PhaseImplemented (phaseName p)])"
  by (auto simp: implementPhase_def tick_def markPhaseComplete_def emit_def
           split: outcome.splits if_splits)

lemma executePhaseGeneration_fields:
  assumes "executePhaseGeneration env a = (r, a')"
  shows "phasesCounter a' = phasesCounter a \<and> events a' = events a
         \<and> (pendingUserInputs a' = [] \<or> pendingUserInputs a' = pendingUserInputs a)
         \<and> (\<forall>ds pc. r = Inr (ds, pc) \<longrightarrow>
                (ds = PHASE_IMPLEMENTING \<and> pc \<noteq> None \<and> pendingUserInputs a' = [])
              \<or> (ds = FINALIZING \<and> pc = None \<and> pendingUserInputs a' = [])
              \<or> (ds = IDLE \<and> pc = None))"
proof -
  obtain r1 a1 where f: "fetchAllIssues env a = (r1, a1)" by (cases "fetchAllIssues env a")
  note f1 = fetchAllIssues_fields [OF f]
  obtain ins a2 where p: "fetchPendingUserRequests a1 = (ins, a2)"
    by (cases "fetchPendingUserRequests a1")
  then have p2: "phasesCounter a2 = phasesCounter a1" "events a2 = events a1"
      "pendingUserInputs a2 = []"
    by (auto simp: fetchPendingUserRequests_def Let_def split: if_splits)
  obtain r3 a3 where g: "generateNextPhase env a2 = (r3, a3)" by (cases "generateNextPhase env a2")
  note g3 = generateNextPhase_fields [OF g]
  show ?thesis
    using assms f f1 p p2 g g3
    by (auto simp: executePhaseGeneration_def split: sum.splits thrown.splits option.splits)
qed

lemma implement_known_phase_fields:
  assumes "implement_known_phase env p a = (r, a')"
  shows "pendingUserInputs a' = pendingUserInputs a
         \<and> (r = Inr FINALIZING \<or> r = Inr PHASE_GENERATING \<longrightarrow>
              phasesCounter a' = phasesCounter a - 1
              \<and> events a' = events a @ [PhaseImplemented (phaseName p)]
              \<and> (r = Inr FINALIZING \<longleftrightarrow>
                   (lastPhase p \<or> phasesCounter a - 1 \<le> 0) \<and> pendingUserInputs a = []))
         \<and> (r \<noteq> Inr FINALIZING \<and> r \<noteq> Inr PHASE_GENERATING \<longrightarrow>
              (r = Inr IDLE \<or> r = Inl RateLimitExceededError)
              \<and> phasesCounter a' = phasesCounter a \<and> events a' = events a)"
proof -
  let ?a0 = "a\<lparr>currentPhase := None\<rparr>"
  obtain r1 a1 where f: "fetchAllIssues env ?a0 = (r1, a1)" by (cases "fetchAllIssues env ?a0")
  note f1 = fetchAllIssues_fields [OF f]
  obtain r2 a2 where i: "implementPhase env p a1 = (r2, a2)" by (cases "implementPhase env p a1")
  note i2 = implementPhase_fields [OF i]
  show ?thesis
    using assms f f1 i i2
    by (auto simp: implement_known_phase_def decrementPhasesCounter_def Let_def
             split: sum.splits thrown.splits if_splits)
qed


lemma executePhaseImplementation_fields:
  assumes "executePhaseImplementation env pc a = (r, a')"
  shows "(r = Inr IDLE \<or> r = Inr FINALIZING \<or> r = Inr PHASE_GENERATING \<or> r = Inl RateLimitExceededError)
       \<and> (pendingUserInputs a' = [] \<or> pendingUserInputs a' = pendingUserInputs a)
       \<and> ((events a' = events a \<and> phasesCounter a' = phasesCounter a \<and> r \<noteq> Inr PHASE_GENERATING)
          \<or> (\<exists>n. events a' = events a @ [PhaseImplemented n] \<and> phasesCounter a' = phasesCounter a - 1))
       \<and> (r = Inr PHASE_GENERATING \<longrightarrow> pendingUserInputs a' \<noteq> [] \<or> 0 < phasesCounter a')"
proof -
  have known: "?thesis" if k: "implement_known_phase env p a = (r, a')" for p
    using implement_known_phase_fields [OF k] by (cases "r = Inr FINALIZING \<or> r = Inr PHASE_GENERATING") auto
  show ?thesis
  proof (cases pc)
    case (Some p)
    with assms have "implement_known_phase env p a = (r, a')"
      by (simp add: executePhaseImplementation_def)
    then show ?thesis by (rule known)
  next
    case None
    show ?thesis
    proof (cases "currentPhase a")
      case (Some p)
      with assms None have "implement_known_phase env p a = (r, a')"
        by (simp add: executePhaseImplementation_def)
      then show ?thesis by (rule known)
    next
      case cn: None
      obtain rg ag where g: "executePhaseGeneration env a = (rg, ag)"
        by (cases "executePhaseGeneration env a")
      note gf = executePhaseGeneration_fields [OF g]
      show ?thesis
      proof (cases rg)
        case (Inl e)
        with assms None cn g gf show ?thesis
          by (cases e) (auto simp: executePhaseImplementation_def)
      next
        case (Inr dp)
        obtain ds po where dp: "dp = (ds, po)" by (cases dp)
        show ?thesis
        proof (cases po)
          case None': None
          with assms None cn g gf Inr dp show ?thesis
            by (auto simp: executePhaseImplementation_def)
        next
          case (Some p)
          with assms None cn g Inr dp have k: "implement_known_phase env p ag = (r, a')"
            by (simp add: executePhaseImplementation_def)
          from implement_known_phase_fields [OF k] gf Inr dp Some
          show ?thesis
            by (cases "r = Inr FINALIZING \<or> r = Inr PHASE_GENERATING") auto
        qed
      qed
    qed
  qed
qed

lemma emit_fields:
  "phasesCounter (emit e a) = phasesCounter a \<and> pendingUserInputs (emit e a) = pendingUserInputs a
   \<and> events (emit e a) = events a @ [e]"
  by (simp add: emit_def)

lemma loop_body_decreases:
  assumes ds: "ds \<noteq> IDLE" and b: "loop_body env ds pc a = (Inr (ds', pc'), a')"
  shows "loop_measure ds' a' < loop_measure ds a"
proof (cases ds)
  case IDLE
  with ds show ?thesis by simp
next
  case PHASE_GENERATING
  with b have g: "executePhaseGeneration env (emit (Executing ds) a) = (Inr (ds', pc'), a')"
    by (simp add: loop_body_def)
  from executePhaseGeneration_fields [OF g] emit_fields [of "Executing ds" a] PHASE_GENERATING
  show ?thesis
    by (auto simp: loop_measure_def Let_def)
next
  case PHASE_IMPLEMENTING
  with b have g: "executePhaseImplementation env pc (emit (Executing ds) a) = (Inr ds', a')"
    by (auto simp: loop_body_def split: sum.splits prod.splits)
  from executePhaseImplementation_fields [OF g] emit_fields [of "Executing ds" a] PHASE_IMPLEMENTING
  show ?thesis
    by (auto simp: loop_measure_def Let_def split: if_splits)
next
  case REVIEWING
  with b have "ds' = IDLE"
    by (auto simp: loop_body_def executeReviewCycle_def Let_def split: sum.splits prod.splits if_splits)
  with REVIEWING show ?thesis by (simp add: loop_measure_def)
next
  case FINALIZING
  with b have "ds' = REVIEWING"
    by (auto simp: loop_body_def executeFinalizing_def Let_def split: sum.splits prod.splits if_splits)
  with FINALIZING show ?thesis by (simp add: loop_measure_def)
qed

subsection \<open>The loop and its entry point\<close>

text \<open>
  \<open>launchStateMachine\<close>: the \<open>while\<close> loop ends in \<open>IDLE\<close> or when an error
  escapes the body (the surrounding \<open>catch\<close> logs it and returns).
\<close>

function state_machine_loop ::
  "environment \<Rightarrow> CurrentDevState \<Rightarrow> PhaseConcept option \<Rightarrow> PhasicState \<Rightarrow> PhasicState" where
  "state_machine_loop env currentDevState phaseConcept a =
     (if currentDevState = IDLE then a
      else (case loop_body env currentDevState phaseConcept a of
              (Inl error, a') \<Rightarrow> a'
            | (Inr (next, phaseConcept'), a') \<Rightarrow> state_machine_loop env next phaseConcept' a'))"
  by pat_completeness auto
termination
  by (relation "measure (\<lambda>(env, ds, pc, a). loop_measure ds a)")
     (auto intro: loop_body_decreases dest: sym)

definition launchStateMachine :: "environment \<Rightarrow> PhasicState \<Rightarrow> PhasicState" where
  "launchStateMachine env a =
     (let incompletedPhases = filter (\<lambda>phase. \<not> completed phase) (generatedPhases a)
      in if incompletedPhases \<noteq> []
         then state_machine_loop env PHASE_IMPLEMENTING
                (Some (PhaseConcept.truncate (last incompletedPhases))) a
         else if generatedPhases a \<noteq> []
         then state_machine_loop env PHASE_GENERATING None a
         else state_machine_loop env PHASE_IMPLEMENTING (Some (initialPhase a))
                (createNewIncompletePhase (initialPhase a) a))"

text \<open>
  Phases implemented before the loop first executes \<open>FINALIZING\<close>, counted on the
  events of a run; the bound on what is still to come in a given loop state; an environment
  in which no operation throws; and a sample environment and agent.
\<close>

fun is_implemented :: "build_event \<Rightarrow> bool" where
  "is_implemented (PhaseImplemented _) = True"
| "is_implemented (Executing _) = False"

definition implemented_before_finalizing :: "build_event list \<Rightarrow> nat" where
  "implemented_before_finalizing evs =
     length (filter is_implemented (takeWhile (\<lambda>e. e \<noteq> Executing FINALIZING) evs))"

definition phases_left :: "CurrentDevState \<Rightarrow> PhasicState \<Rightarrow> nat" where
  "phases_left currentDevState a =
     (case currentDevState of
        PHASE_IMPLEMENTING \<Rightarrow>
          max (nat (phasesCounter a)) (if pendingUserInputs a = [] then 1 else 2)
      | PHASE_GENERATING \<Rightarrow> max (nat (phasesCounter a)) 1
      | _ \<Rightarrow> 0)"

definition env_never_throws :: "environment \<Rightarrow> bool" where
  "env_never_throws env =
     (\<forall>k. (\<exists>x. fetchAllIssuesOp env k = Returns x)
        \<and> (\<exists>x. generateNextPhaseOp env k = Returns x)
        \<and> (\<exists>x. implementPhaseOp env k = Returns x))"

definition steady_env :: environment where
  "steady_env =
     \<lparr>fetchAllIssuesOp = (\<lambda>k. Returns False),
      generateNextPhaseOp = (\<lambda>k. Returns \<lparr>phaseName = ''next'', phaseDescription = ''more'',
                                            phaseFiles = [''src/App.tsx''], lastPhase = False\<rparr>),
      implementPhaseOp = (\<lambda>k. Returns ())\<rparr>"

definition fresh_agent :: PhasicState where
  "fresh_agent =
     \<lparr>generatedPhases = [], phasesCounter = MAX_PHASES, pendingUserInputs = [],
      mvpGenerated = False, reviewingInitiated = False, currentPhase = None,
      initialPhase = \<lparr>phaseName = ''initial'', phaseDescription = ''first'',
                      phaseFiles = [''src/main.tsx''], lastPhase = False\<rparr>,
      opCalls = 0, events = []\<rparr>"


section \<open>CSRF middleware of the HTTP application (worker/app.ts)\<close>

text \<open>
  A request as the middleware reads it: \<open>c.req.method\<close>, \<open>c.req.url\<close> (the URL of the
  underlying \<open>Request\<close>, scheme and host included) and the \<open>Upgrade\<close> header. A response is
  its status, its JSON body (an object, as a list of fields, or none) and the CSRF token that
  has been set on it, if any.
\<close>

record HttpRequest =
  req_method :: string
  req_url :: string
  req_upgrade :: "string option"

record HttpResponse =
  res_status :: nat
  res_json :: "(string \<times> string) list option"
  res_csrf_token :: "string option"

datatype SecurityErrorType = CSRF_VIOLATION | OTHER_SECURITY_ERROR string

datatype http_thrown = SecurityError SecurityErrorType | OtherThrown string

datatype middleware_event = NextCalled | EnforceCalled bool

definition toUpperCase :: "string \<Rightarrow> string" where
  "toUpperCase s =
     map (\<lambda>c. let n = (of_char c :: nat) in if 97 \<le> n \<and> n \<le> 122 then char_of (n - 32) else c) s"

definition toLowerCase :: "string \<Rightarrow> string" where
  "toLowerCase s =
     map (\<lambda>c. let n = (of_char c :: nat) in if 65 \<le> n \<and> n \<le> 90 then char_of (n + 32) else c) s"

definition startsWith :: "string \<Rightarrow> string \<Rightarrow> bool" where
  "startsWith s p = prefix p s"

definition is_websocket_upgrade :: "HttpRequest \<Rightarrow> bool" where
  "is_websocket_upgrade req =
     (case req_upgrade req of None \<Rightarrow> False | Some h \<Rightarrow> toLowerCase h = ''websocket'')"

definition csrf_violation_response :: HttpResponse where
  "csrf_violation_response =
     \<lparr>res_status = 403,
      res_json = Some [(''error'', ''CSRF validation failed''), (''code'', ''CSRF_VIOLATION'')],
      res_csrf_token = None\<rparr>"

text \<open>The \<open>catch\<close> clause of the middleware.\<close>

definition csrf_catch :: "http_thrown \<Rightarrow> http_thrown + HttpResponse" where
  "csrf_catch error =
     (case error of
        SecurityError CSRF_VIOLATION \<Rightarrow> Inr csrf_violation_response
      | _ \<Rightarrow> Inl error)"

text \<open>
  The middleware registered with \<open>app.use('*', ...)\<close>. \<open>CsrfService.enforce\<close> is not part
  of the sources at hand; it is the parameter \<open>enforce\<close>: called with the request and, for
  the token-setting call, the response, it throws or returns the response it was given
  (with the token set). \<open>next\<close> stands for the rest of the chain, down to the route handler.
  The second component of the result lists the calls made, in order.
\<close>

definition csrf_middleware ::
  "(HttpRequest \<Rightarrow> HttpResponse option \<Rightarrow> http_thrown + HttpResponse option)
     \<Rightarrow> (HttpRequest \<Rightarrow> http_thrown + HttpResponse) \<Rightarrow> HttpRequest
     \<Rightarrow> (http_thrown + HttpResponse) \<times> middleware_event list" where
  "csrf_middleware enforce nxt req =
     (let method = toUpperCase (req_method req) in
      if is_websocket_upgrade req then (nxt req, [NextCalled])
      else if method = ''GET'' \<or> method = ''HEAD'' \<or> method = ''OPTIONS'' then
        (case nxt req of
           Inl error \<Rightarrow> (csrf_catch error, [NextCalled])
         | Inr res \<Rightarrow>
             if startsWith (req_url req) ''/api/'' \<and> res_status res < 400
             then (case enforce req (Some res) of
                     Inl error \<Rightarrow> (csrf_catch error, [NextCalled, EnforceCalled True])
                   | Inr res' \<Rightarrow> (Inr (case res' of None \<Rightarrow> res | Some r \<Rightarrow> r),
                                  [NextCalled, EnforceCalled True]))
             else (Inr res, [NextCalled]))
      else
        (case enforce req None of
           Inl error \<Rightarrow> (csrf_catch error, [EnforceCalled False])
         | Inr _ \<Rightarrow>
             (case nxt req of
                Inl error \<Rightarrow> (csrf_catch error, [EnforceCalled False, NextCalled])
              | Inr res \<Rightarrow> (Inr res, [EnforceCalled False, NextCalled]))))"

text \<open>
  The path of an absolute URL \<open>scheme://authority/path\<close>: what follows the authority.
  A string without \<open>://\<close> is taken to be a path already.
\<close>

fun drop_until_slash :: "string \<Rightarrow> string" where
  "drop_until_slash [] = ''/''"
| "drop_until_slash (c # cs) = (if c = CHR ''/'' then c # cs else drop_until_slash cs)"

fun after_scheme :: "string \<Rightarrow> string option" where
  "after_scheme (a # b # c # rest) =
     (if [a, b, c] = ''://'' then Some rest else after_scheme (b # c # rest))"
| "after_scheme _ = None"

definition url_path :: "string \<Rightarrow> string" where
  "url_path url = (case after_scheme url of None \<Rightarrow> url | Some rest \<Rightarrow> drop_until_slash rest)"


text \<open>Sample requests, a handler that answers 200, and two behaviours of \<open>enforce\<close>.\<close>

definition ok_handler :: "HttpRequest \<Rightarrow> http_thrown + HttpResponse" where
  "ok_handler req = Inr \<lparr>res_status = 200, res_json = None, res_csrf_token = None\<rparr>"

definition token_setting_enforce ::
  "HttpRequest \<Rightarrow> HttpResponse option \<Rightarrow> http_thrown + HttpResponse option" where
  "token_setting_enforce req res =
     Inr (map_option (\<lambda>r. r\<lparr>res_csrf_token := Some ''fresh-token''\<rparr>) res)"

definition rejecting_enforce ::
  "HttpRequest \<Rightarrow> HttpResponse option \<Rightarrow> http_thrown + HttpResponse option" where
  "rejecting_enforce req res = Inl (SecurityError CSRF_VIOLATION)"

definition api_get_request :: HttpRequest where
  "api_get_request =
     \<lparr>req_method = ''GET'', req_url = ''https://vibesdk.example/api/apps'', req_upgrade = None\<rparr>"

definition api_post_request :: HttpRequest where
  "api_post_request =
     \<lparr>req_method = ''POST'', req_url = ''https://vibesdk.example/api/apps'', req_upgrade = None\<rparr>"

definition upgrade_post_request :: HttpRequest where
  "upgrade_post_request =
     \<lparr>req_method = ''POST'', req_url = ''https://vibesdk.example/api/apps'',
      req_upgrade = Some ''websocket''\<rparr>"


section \<open>GitHub export (worker/services/github/GitHubService.ts, \<open>forcePushToGitHub\<close>)\<close>

text \<open>
  A local commit as the push loop sees it: its message and the flat file list that
  \<open>walkGitTree\<close> returns for its tree. The GitHub API and the digest are parameters:
  \<open>hashContent\<close> (SHA-256, hex) and the SHAs that \<open>createBlob\<close>, \<open>createTree\<close> and
  \<open>createCommit\<close> answer with. The remote records the calls it receives; every call
  succeeds.
\<close>

record ExportedFile =
  file_path :: string
  file_oid :: string
  file_content :: string

record LocalCommit =
  commit_oid :: string
  commit_message :: string
  commit_files :: "ExportedFile list"

record github_api =
  hashContent :: "string \<Rightarrow> string"
  blob_sha :: "string \<Rightarrow> string"
  tree_sha :: "(string \<times> string option) list \<Rightarrow> string"
  commit_sha :: "string \<Rightarrow> string \<Rightarrow> string option \<Rightarrow> string"

record GitHubRemote =
  createBlobCalls :: "string list"
  createTreeCalls :: "(string \<times> string option) list list"
  createCommitCalls :: "(string \<times> string \<times> string option) list"
  branchHead :: "string option"

text \<open>
  The two JavaScript \<open>Map\<close>s (\<open>blobCache\<close>, \<open>fileToGitHubBlob\<close>) are association lists
  with one entry per key; \<open>Map.size\<close> is the length.
\<close>

record PushState =
  blobCache :: "(string \<times> string) list"
  totalBlobsCreated :: nat
  totalBlobsReused :: nat
  parentSha :: "string option"
  remote :: GitHubRemote

record FileScan =
  fileToGitHubBlob :: "(string \<times> string) list"
  blobCreationPromises :: "(string \<times> string \<times> string) list"
  reusedInScan :: nat

text \<open>
  One iteration of \<open>for (const file of files)\<close>. On a cache miss the asynchronous
  function is started: \<open>createBlob\<close> is called, and what follows its \<open>await\<close>
  (\<open>blobCache.set\<close>, \<open>fileToGitHubBlob.set\<close>, the counter) runs when GitHub has
  answered. The loop itself only awaits the local digest of the next file, so the
  continuations run when the loop is over and \<open>Promise.all\<close> is awaited: the cache that
  the loop consults is the cache as it was when the commit's loop began. A pending creation
  is kept as (content hash, path, content).
\<close>

definition scan_file :: "github_api \<Rightarrow> (string \<times> string) list \<Rightarrow> FileScan \<Rightarrow> ExportedFile \<Rightarrow> FileScan" where
  "scan_file api cache scan file =
     (let contentHash = hashContent api (file_content file)
      in case map_of cache contentHash of
           Some sha \<Rightarrow>
             scan\<lparr>fileToGitHubBlob := AList.update (file_path file) sha (fileToGitHubBlob scan),
                  reusedInScan := reusedInScan scan + 1\<rparr>
         | None \<Rightarrow>
             scan\<lparr>blobCreationPromises :=
                    blobCreationPromises scan @ [(contentHash, file_path file, file_content file)]\<rparr>)"

text \<open>The continuation of one blob creation: the call is answered and its SHA recorded.\<close>

definition settle_blob ::
  "github_api \<Rightarrow> (string \<times> string) list \<times> (string \<times> string) list \<times> nat \<times> GitHubRemote
     \<Rightarrow> string \<times> string \<times> string
     \<Rightarrow> (string \<times> string) list \<times> (string \<times> string) list \<times> nat \<times> GitHubRemote" where
  "settle_blob api acc pending =
     (case acc of (cache, fileToBlob, created, rem) \<Rightarrow>
        (case pending of (contentHash, path, text) \<Rightarrow>
           (let sha = blob_sha api text
            in (AList.update contentHash sha cache,
                AList.update path sha fileToBlob,
                created + 1,
                rem\<lparr>createBlobCalls := createBlobCalls rem @ [text]\<rparr>))))"

definition process_commit :: "github_api \<Rightarrow> PushState \<Rightarrow> LocalCommit \<Rightarrow> PushState" where
  "process_commit api st commit =
     (let files = commit_files commit in
      if files = [] then st
      else
        (let scan = foldl (scan_file api (blobCache st))
                      \<lparr>fileToGitHubBlob = [], blobCreationPromises = [], reusedInScan = 0\<rparr> files
         in case foldl (settle_blob api)
                   (blobCache st, fileToGitHubBlob scan, totalBlobsCreated st, remote st)
                   (blobCreationPromises scan) of
              (cache', fileToBlob', created', rem') \<Rightarrow>
                (let tree = map (\<lambda>file. (file_path file, map_of fileToBlob' (file_path file))) files;
                     treeSha = tree_sha api tree;
                     newCommit = commit_sha api (commit_message commit) treeSha (parentSha st)
                 in st\<lparr>blobCache := cache',
                       totalBlobsCreated := created',
                       totalBlobsReused := totalBlobsReused st + reusedInScan scan,
                       parentSha := Some newCommit,
                       remote := rem'\<lparr>createTreeCalls := createTreeCalls rem' @ [tree],
                                      createCommitCalls := createCommitCalls rem'
                                         @ [(commit_message commit, treeSha, parentSha st)]\<rparr>\<rparr>)))"

definition empty_remote :: GitHubRemote where
  "empty_remote =
     \<lparr>createBlobCalls = [], createTreeCalls = [], createCommitCalls = [], branchHead = None\<rparr>"

text \<open>
  \<open>forcePushToGitHub\<close> on the commits as \<open>git.log\<close> lists them (newest first): they are
  processed oldest first, and the branch is forced to the last commit created.
\<close>

definition forcePushToGitHub :: "github_api \<Rightarrow> LocalCommit list \<Rightarrow> (string + string) \<times> PushState" where
  "forcePushToGitHub api commits =
     (let st = foldl (process_commit api)
                 \<lparr>blobCache = [], totalBlobsCreated = 0, totalBlobsReused = 0,
                  parentSha = None, remote = empty_remote\<rparr>
                 (rev commits)
      in case parentSha st of
           None \<Rightarrow> (Inl ''No commits were created'', st)
         | Some sha \<Rightarrow> (Inr sha, st\<lparr>remote := (remote st)\<lparr>branchHead := Some sha\<rparr>\<rparr>))"

text \<open>A commit with two files of equal content, and three commits that keep one file.\<close>

definition twin_files_commit :: LocalCommit where
  "twin_files_commit =
     \<lparr>commit_oid = ''c1'', commit_message = ''feat: init'',
      commit_files =
        [\<lparr>file_path = ''src/a.ts'', file_oid = ''o1'', file_content = ''export {}''\<rparr>,
         \<lparr>file_path = ''src/b.ts'', file_oid = ''o1'', file_content = ''export {}''\<rparr>]\<rparr>"

definition unchanged_file_commits :: "LocalCommit list" where
  "unchanged_file_commits =
     [\<lparr>commit_oid = ''c3'', commit_message = ''third'',
       commit_files = [\<lparr>file_path = ''README.md'', file_oid = ''o1'', file_content = ''hello''\<rparr>]\<rparr>,
      \<lparr>commit_oid = ''c2'', commit_message = ''second'',
       commit_files = [\<lparr>file_path = ''README.md'', file_oid = ''o1'', file_content = ''hello''\<rparr>]\<rparr>,
      \<lparr>commit_oid = ''c1'', commit_message = ''first'',
       commit_files = [\<lparr>file_path = ''README.md'', file_oid = ''o1'', file_content = ''hello''\<rparr>]\<rparr>]"


section \<open>Versioned workspace (\<open>GitVersionControl\<close>)\<close>

subsection \<open>The git library underneath\<close>

text \<open>
  \<open>GitVersionControl\<close> delegates to a git library (\<open>git.add\<close>, \<open>git.statusMatrix\<close>,
  \<open>git.commit\<close>, \<open>git.log\<close>, \<open>git.resolveRef\<close>, \<open>git.writeRef\<close>, \<open>git.checkout\<close>,
  \<open>git.listFiles\<close>) over a file-system adapter; neither is among the sources. What the
  spec says of the workspace is the basis of the definitions of this subsection: an object
  store with a ref map in which HEAD is one ref, initialised with HEAD pointing to
  \<open>refs/heads/main\<close>; a commit object carries message, author, parent and tree; the status
  matrix yields for each tracked path the state codes of HEAD, stage and working directory; a
  commit takes the staged tree and the current HEAD as parent, and advances the branch HEAD
  points to; \<open>reset\<close> resolves its ref to an oid and rewrites HEAD with it. Where the spec is
  silent or differs, the definitions follow what the library (isomorphic-git) documents: the
  order of the columns of a status row, and what a commit does when HEAD holds an oid instead
  of pointing to a branch. Trees, index and working directory are association lists from path
  to content. An oid is the content hash of the commit, the parameter \<open>oid_of\<close> of
  \<open>git_commit\<close>.
\<close>

record GitCommit =
  gc_message :: string
  gc_author_name :: string
  gc_author_email :: string
  gc_timestamp :: int
  gc_parent :: "string option"
  gc_tree :: "(string \<times> string) list"

datatype head_ref = Symbolic string | Detached string

record Repo =
  objects :: "(string \<times> GitCommit) list"
  HEAD :: head_ref
  branches :: "(string \<times> string) list"
  index :: "(string \<times> string) list"
  workdir :: "(string \<times> string) list"

text \<open>Modelled from the spec: \<open>git.init\<close> with default branch \<open>main\<close>, absent from the
  sources; an empty store whose HEAD points to \<open>refs/heads/main\<close>.\<close>

definition git_init :: Repo where
  "git_init = \<lparr>objects = [], HEAD = Symbolic ''main'', branches = [], index = [], workdir = []\<rparr>"

text \<open>Modelled from the spec: the oid HEAD stands for, absent from the sources; through
  its branch when HEAD is symbolic, itself when HEAD holds an oid.\<close>

definition resolve_HEAD :: "Repo \<Rightarrow> string option" where
  "resolve_HEAD repo =
     (case HEAD repo of Symbolic b \<Rightarrow> map_of (branches repo) b | Detached oid \<Rightarrow> Some oid)"

text \<open>Modelled from the spec: \<open>git.resolveRef\<close>, absent from the sources; it resolves HEAD,
  a branch name, or the oid of a stored commit, and is \<open>None\<close> when it throws.\<close>

definition git_resolveRef :: "Repo \<Rightarrow> string \<Rightarrow> string option" where
  "git_resolveRef repo ref =
     (if ref = ''HEAD'' then resolve_HEAD repo
      else case map_of (branches repo) ref of
             Some oid \<Rightarrow> Some oid
           | None \<Rightarrow> (case map_of (objects repo) ref of Some _ \<Rightarrow> Some ref | None \<Rightarrow> None))"

text \<open>Modelled from the spec: the tree of a commit (reading a commit object), absent from
  the sources; empty when there is no commit.\<close>

definition tree_of :: "Repo \<Rightarrow> string option \<Rightarrow> (string \<times> string) list" where
  "tree_of repo oid =
     (case oid of
        None \<Rightarrow> []
      | Some h \<Rightarrow> (case map_of (objects repo) h of None \<Rightarrow> [] | Some c \<Rightarrow> gc_tree c))"

text \<open>Modelled from the spec: \<open>fs.writeFile\<close> of the file-system adapter, absent from the
  sources; it stores the content in the working directory.\<close>

definition fs_writeFile :: "Repo \<Rightarrow> string \<Rightarrow> string \<Rightarrow> Repo" where
  "fs_writeFile repo p text = repo\<lparr>workdir := AList.update p text (workdir repo)\<rparr>"

text \<open>Modelled from the spec: \<open>git.add\<close>, absent from the sources; it updates the index
  entry of the path with the content in the working directory.\<close>

definition git_add :: "Repo \<Rightarrow> string \<Rightarrow> Repo" where
  "git_add repo p =
     (case map_of (workdir repo) p of
        None \<Rightarrow> repo
      | Some text \<Rightarrow> repo\<lparr>index := AList.update p text (index repo)\<rparr>)"

text \<open>
  Modelled from the spec: one row of \<open>git.statusMatrix\<close>, absent from the sources. The
  state codes of a path: head is 1 when the path is in the HEAD tree and 0 when not; stage
  and workdir are 0 when absent and 1 when identical to HEAD; otherwise the working directory
  has 2, and the stage has 2 when identical to the working directory and 3 when not. A row is
  (path, head, workdir, stage): the library documents a row as
  \<open>[filepath, HEAD, WORKDIR, STAGE]\<close>, so that \<open>row[1]\<close> is the HEAD code and \<open>row[2]\<close> the
  code of the working directory. (The spec lists the codes as (head, stage, workdir), and the
  comment in \<open>commit\<close> calls \<open>row[2]\<close> the stage.)
\<close>

definition status_row :: "Repo \<Rightarrow> string \<Rightarrow> string \<times> nat \<times> nat \<times> nat" where
  "status_row repo p =
     (let h = map_of (tree_of repo (resolve_HEAD repo)) p;
          s = map_of (index repo) p;
          w = map_of (workdir repo) p
      in (p,
          (if h = None then 0 else 1),
          (if w = None then 0 else if w = h then 1 else 2),
          (if s = None then 0 else if s = h then 1 else if s = w then 2 else 3)))"

text \<open>Modelled from the spec: \<open>git.statusMatrix\<close>, absent from the sources; one row for
  each path of the HEAD tree, the index and the working directory.\<close>

definition git_statusMatrix :: "Repo \<Rightarrow> (string \<times> nat \<times> nat \<times> nat) list option" where
  "git_statusMatrix repo =
     Some (map (status_row repo)
             (remdups (map fst (tree_of repo (resolve_HEAD repo)) @ map fst (index repo)
                        @ map fst (workdir repo))))"

text \<open>
  Modelled from the spec: \<open>git.commit\<close>, absent from the sources; a commit object with the
  staged tree and the current HEAD as parent is written, and the branch that HEAD points to
  advances to it. The call in \<open>commit\<close> passes no \<open>ref\<close>: the library then takes the ref to
  update from HEAD, which is the branch when HEAD is symbolic. When HEAD holds an oid (as
  after \<open>git.writeRef\<close> of an oid to HEAD), there is no branch to advance and HEAD itself is
  not rewritten: the commit object is written with that oid as parent, and HEAD stays where
  it was.
\<close>

definition git_commit ::
  "(GitCommit \<Rightarrow> string) \<Rightarrow> Repo \<Rightarrow> string \<Rightarrow> string \<times> string \<Rightarrow> int \<Rightarrow> string \<times> Repo" where
  "git_commit oid_of repo msg author ts =
     (let c = \<lparr>gc_message = msg, gc_author_name = fst author, gc_author_email = snd author,
               gc_timestamp = ts, gc_parent = resolve_HEAD repo, gc_tree = index repo\<rparr>;
          oid = oid_of c;
          repo1 = repo\<lparr>objects := AList.update oid c (objects repo)\<rparr>
      in (oid,
          case HEAD repo of
            Symbolic b \<Rightarrow> repo1\<lparr>branches := AList.update b oid (branches repo)\<rparr>
          | Detached _ \<Rightarrow> repo1))"

text \<open>
  Modelled from the spec: the walk of \<open>git.log\<close>, absent from the sources; from an oid,
  parent first, at most \<open>depth\<close> commits, and \<open>None\<close> when a commit object is missing (the
  library throws).
\<close>

fun log_from :: "Repo \<Rightarrow> nat \<Rightarrow> string \<Rightarrow> (string \<times> GitCommit) list option" where
  "log_from repo 0 oid = Some []"
| "log_from repo (Suc n) oid =
     (case map_of (objects repo) oid of
        None \<Rightarrow> None
      | Some c \<Rightarrow>
          (case gc_parent c of
             None \<Rightarrow> Some [(oid, c)]
           | Some p \<Rightarrow> map_option (\<lambda>rest. (oid, c) # rest) (log_from repo n p)))"

text \<open>Modelled from the spec: \<open>git.log\<close>, absent from the sources; the walk from the commit
  that the given ref resolves to.\<close>

definition git_log :: "Repo \<Rightarrow> string \<Rightarrow> nat \<Rightarrow> (string \<times> GitCommit) list option" where
  "git_log repo ref depth =
     (case git_resolveRef repo ref of None \<Rightarrow> None | Some oid \<Rightarrow> log_from repo depth oid)"

text \<open>Modelled from the spec: \<open>git.writeRef\<close> for the ref HEAD, absent from the sources;
  HEAD is rewritten with the oid and no branch is touched.\<close>

definition git_writeRef_HEAD :: "Repo \<Rightarrow> string \<Rightarrow> Repo" where
  "git_writeRef_HEAD repo oid = repo\<lparr>HEAD := Detached oid\<rparr>"

text \<open>Modelled from the spec: \<open>git.checkout\<close> with \<open>force\<close>, absent from the sources; index
  and working directory become the tree of the ref, and HEAD follows a branch name
  symbolically and anything else as an oid.\<close>

definition git_checkout :: "Repo \<Rightarrow> string \<Rightarrow> Repo option" where
  "git_checkout repo ref =
     (case git_resolveRef repo ref of
        None \<Rightarrow> None
      | Some oid \<Rightarrow>
          Some (repo\<lparr>index := tree_of repo (Some oid), workdir := tree_of repo (Some oid),
                     HEAD := (if map_of (branches repo) ref \<noteq> None then Symbolic ref
                              else if ref = ''HEAD'' then HEAD repo else Detached oid)\<rparr>))"

text \<open>Modelled from the spec: \<open>git.listFiles\<close>, absent from the sources; the paths of the
  tree of the ref.\<close>

definition git_listFiles :: "Repo \<Rightarrow> string \<Rightarrow> string list option" where
  "git_listFiles repo ref =
     (case git_resolveRef repo ref of
        None \<Rightarrow> None
      | Some oid \<Rightarrow> Some (map fst (tree_of repo (Some oid))))"

subsection \<open>\<open>GitVersionControl\<close> itself\<close>

record FileSnapshot =
  filePath :: string
  fileContents :: string

record CommitInfo =
  ci_oid :: string
  ci_message :: string
  ci_author :: string
  ci_timestamp :: int

definition default_author :: "string \<times> string" where
  "default_author = (''Vibesdk'', ''vibesdk-bot@cloudflare.com'')"

definition normalize_path :: "string \<Rightarrow> string" where
  "normalize_path p = (if startsWith p ''/'' then drop 1 p else p)"

definition stage_one :: "Repo \<Rightarrow> FileSnapshot \<Rightarrow> Repo" where
  "stage_one repo f =
     git_add (fs_writeFile repo (normalize_path (filePath f)) (fileContents f))
       (normalize_path (filePath f))"

definition stage :: "Repo \<Rightarrow> FileSnapshot list \<Rightarrow> Repo" where
  "stage repo files = foldl stage_one repo files"

text \<open>
  \<open>commit\<close>. \<open>now\<close> is \<open>Date.now()\<close>; an absent or empty message is replaced by the
  auto-checkpoint text, whose date part is the parameter \<open>isoDate\<close>. \<open>has_changes\<close> is the
  test \<open>status.some(row => row[1] !== row[2])\<close>, with \<open>True\<close> when \<open>statusMatrix\<close> throws.
\<close>

definition has_changes :: "Repo \<Rightarrow> bool" where
  "has_changes repo =
     (case git_statusMatrix repo of
        None \<Rightarrow> True
      | Some status \<Rightarrow> list_ex (\<lambda>row. fst (snd row) \<noteq> fst (snd (snd row))) status)"

definition commit ::
  "(GitCommit \<Rightarrow> string) \<Rightarrow> string \<times> string \<Rightarrow> int \<Rightarrow> string \<Rightarrow> Repo \<Rightarrow> FileSnapshot list
     \<Rightarrow> string option \<Rightarrow> string option \<times> Repo" where
  "commit oid_of author now isoDate repo files msg =
     (let repo1 = (if files \<noteq> [] then stage repo files else repo) in
      if \<not> has_changes repo1 then (None, repo1)
      else
        (let m = (case msg of
                    None \<Rightarrow> ''Auto-checkpoint ('' @ isoDate @ '')''
                  | Some t \<Rightarrow> if t = [] then ''Auto-checkpoint ('' @ isoDate @ '')'' else t)
         in case git_commit oid_of repo1 m author (now div 1000) of
              (oid, repo2) \<Rightarrow> (Some oid, repo2)))"

definition commit_info :: "string \<times> GitCommit \<Rightarrow> CommitInfo" where
  "commit_info c =
     \<lparr>ci_oid = fst c, ci_message = gc_message (snd c),
      ci_author = gc_author_name (snd c) @ '' <'' @ gc_author_email (snd c) @ ''>'',
      ci_timestamp = gc_timestamp (snd c) * 1000\<rparr>"

text \<open>\<open>log\<close>: the source passes \<open>ref: 'main'\<close> to \<open>git.log\<close>.\<close>

definition log :: "Repo \<Rightarrow> nat \<Rightarrow> CommitInfo list" where
  "log repo lim =
     (case git_log repo ''main'' lim of
        None \<Rightarrow> []
      | Some commits \<Rightarrow> map commit_info commits)"

definition getHead :: "Repo \<Rightarrow> string option" where
  "getHead repo = git_resolveRef repo ''HEAD''"

text \<open>\<open>reset\<close>: \<open>Inl\<close> when \<open>resolveRef\<close>, \<open>checkout\<close> or \<open>listFiles\<close> throws.\<close>

definition reset :: "Repo \<Rightarrow> string \<Rightarrow> bool \<Rightarrow> js_error + (string \<times> nat) \<times> Repo" where
  "reset repo ref hard =
     (case git_resolveRef repo ref of
        None \<Rightarrow> Inl (Error (''Could not find '' @ ref))
      | Some oid \<Rightarrow>
          (let repo1 = git_writeRef_HEAD repo oid in
           case (if hard then git_checkout repo1 ref else Some repo1) of
             None \<Rightarrow> Inl (Error (''Could not find '' @ ref))
           | Some repo2 \<Rightarrow>
               (case git_listFiles repo2 ref of
                  None \<Rightarrow> Inl (Error (''Could not find '' @ ref))
                | Some files \<Rightarrow> Inr ((ref, length files), repo2))))"

text \<open>The history reachable from HEAD, for comparison with what \<open>log\<close> returns.\<close>

definition history_from_HEAD :: "Repo \<Rightarrow> nat \<Rightarrow> CommitInfo list" where
  "history_from_HEAD repo lim =
     (case git_log repo ''HEAD'' lim of
        None \<Rightarrow> []
      | Some commits \<Rightarrow> map commit_info commits)"


text \<open>The repository after the staging step of \<open>commit\<close> (\<open>if (files.length) stage(files)\<close>).\<close>

definition staged :: "Repo \<Rightarrow> FileSnapshot list \<Rightarrow> Repo" where
  "staged repo files = (if files \<noteq> [] then stage repo files else repo)"

text \<open>Sample data: a content hash, and a repository with two commits, before and after a reset.\<close>

definition sample_oid :: "GitCommit \<Rightarrow> string" where
  "sample_oid c = ''oid-'' @ gc_message c"

definition one_commit_repo :: Repo where
  "one_commit_repo =
     snd (commit sample_oid default_author 1000 ''t1'' git_init
            [\<lparr>filePath = ''/src/App.tsx'', fileContents = ''v1''\<rparr>] (Some ''first''))"

definition two_commits_repo :: Repo where
  "two_commits_repo =
     snd (commit sample_oid default_author 2000 ''t2'' one_commit_repo
            [\<lparr>filePath = ''src/App.tsx'', fileContents = ''v2''\<rparr>] (Some ''second''))"

definition after_reset :: Repo where
  "after_reset =
     (case reset two_commits_repo ''oid-first'' True of
        Inl _ \<Rightarrow> two_commits_repo
      | Inr (_, repo) \<Rightarrow> repo)"

text \<open>
  Two calls of \<open>commit\<close> with the same file and no message, one second apart, on the
  repository as the reset left it; and the same two calls on the repository before the reset.
\<close>

definition checkpoint_files :: "FileSnapshot list" where
  "checkpoint_files = [\<lparr>filePath = ''src/App.tsx'', fileContents = ''v3''\<rparr>]"

definition first_after_reset :: "string option \<times> Repo" where
  "first_after_reset =
     commit sample_oid default_author 3000 ''2026-01-01T00:00:03.000Z'' after_reset
       checkpoint_files None"

definition second_after_reset :: "string option \<times> Repo" where
  "second_after_reset =
     commit sample_oid default_author 4000 ''2026-01-01T00:00:04.000Z'' (snd first_after_reset)
       checkpoint_files None"

definition first_on_main :: "string option \<times> Repo" where
  "first_on_main =
     commit sample_oid default_author 3000 ''2026-01-01T00:00:03.000Z'' two_commits_repo
       checkpoint_files None"

definition second_on_main :: "string option \<times> Repo" where
  "second_on_main =
     commit sample_oid default_author 4000 ''2026-01-01T00:00:04.000Z'' (snd first_on_main)
       checkpoint_files None"

section \<open>Theorems\<close>

subsection \<open>Agent manager\<close>

text \<open>
  Claim C9, for a call that no other \<open>createAgent\<close> overlaps. \<open>createAgent\<close> leaves the registry
  as it found it when the agent id is already registered: it throws the "already exists" error
  and a later \<open>getAgent\<close> still returns the original agent. For an id that is not registered,
  whenever \<open>createAgent\<close> resolves with an agent, the returned registry maps the id to exactly
  that agent and every other id as before; when initialisation throws, the registry is
  unchanged as well.
\<close>

theorem createAgent_registry:
  "(agents (agentId (inferenceContext initArgs)) = Some a \<longrightarrow>
      createAgent initialize agents initArgs =
        (Inl (Error (''Agent with ID '' @ agentId (inferenceContext initArgs) @ '' already exists.'')), agents)
      \<and> getAgent (snd (createAgent initialize agents initArgs)) (agentId (inferenceContext initArgs)) = Some a)
   \<and> (agents (agentId (inferenceContext initArgs)) = None \<longrightarrow>
        (\<forall>agent agents'. createAgent initialize agents initArgs = (Inr agent, agents') \<longrightarrow>
           initialize initArgs = Inr agent
           \<and> getAgent agents' (agentId (inferenceContext initArgs)) = Some agent
           \<and> (\<forall>other. other \<noteq> agentId (inferenceContext initArgs) \<longrightarrow>
                 getAgent agents' other = getAgent agents other))
        \<and> (\<forall>e. initialize initArgs = Inl e \<longrightarrow>
              createAgent initialize agents initArgs = (Inl e, agents)))"
  by (auto simp: createAgent_def createAgent_start_def createAgent_resume_def getAgent_def Let_def
           split: sum.splits)

theorem createAgent_registry_witness:
  "createAgent (\<lambda>_. Inr (2::nat)) [''a1'' \<mapsto> 1]
      \<lparr>query = ''q'', hostname = ''h'', inferenceContext = \<lparr>agentId = ''a1'', userId = ''u''\<rparr>\<rparr>
     = (Inl (Error ''Agent with ID a1 already exists.''), [''a1'' \<mapsto> 1])
   \<and> getAgent (snd (createAgent (\<lambda>_. Inr (2::nat)) [''a1'' \<mapsto> 1]
      \<lparr>query = ''q'', hostname = ''h'', inferenceContext = \<lparr>agentId = ''a1'', userId = ''u''\<rparr>\<rparr>)) ''a1''
     = Some 1
   \<and> getAgent (snd (createAgent (\<lambda>_. Inr (2::nat)) [''a1'' \<mapsto> 1]
      \<lparr>query = ''q'', hostname = ''h'', inferenceContext = \<lparr>agentId = ''b2'', userId = ''u''\<rparr>\<rparr>)) ''b2''
     = Some 2"
proof -
  let ?old = "\<lparr>query = ''q'', hostname = ''h'', inferenceContext = \<lparr>agentId = ''a1'', userId = ''u''\<rparr>\<rparr>"
  let ?new = "\<lparr>query = ''q'', hostname = ''h'', inferenceContext = \<lparr>agentId = ''b2'', userId = ''u''\<rparr>\<rparr>"
  let ?init = "\<lambda>_::AgentInitArgs. (Inr (2::nat) :: js_error + nat)"
  let ?m = "[''a1'' \<mapsto> (1::nat)]"
  have old: "?m (agentId (inferenceContext ?old)) = Some 1" by simp
  have new: "?m (agentId (inferenceContext ?new)) = None" by simp
  have c: "createAgent ?init ?m ?new = (Inr 2, ?m(''b2'' \<mapsto> 2))"
    by (simp add: createAgent_def createAgent_start_def createAgent_resume_def)
  have 12: "createAgent ?init ?m ?old =
        (Inl (Error (''Agent with ID '' @ agentId (inferenceContext ?old) @ '' already exists.'')), ?m)
      \<and> getAgent (snd (createAgent ?init ?m ?old)) (agentId (inferenceContext ?old)) = Some 1"
    using createAgent_registry [of ?m ?old 1 ?init] old by blast
  have 3: "getAgent (?m(''b2'' \<mapsto> 2)) (agentId (inferenceContext ?new)) = Some 2"
    using createAgent_registry [of ?m ?new 1 ?init] new c by blast
  from 12 3 c show ?thesis by (simp add: getAgent_def)
qed

text \<open>
  The claim as it stands, atomicity of \<open>createAgent\<close> with respect to the registry, fails for
  overlapping calls. Two calls for the one fresh id \<open>a1\<close> on an empty registry, the second made
  before the first has resumed: both pass the \<open>has\<close> test, since neither has written yet;
  neither throws "already exists"; both resolve, with agents 1 and 2. When the second call
  resumes the id is already registered, to agent 1, and the call overwrites it: after the first
  call has resolved with agent 1, \<open>getAgent\<close> returns agent 2.
\<close>

theorem createAgent_overlap_counterexample:
  "createAgent_start Map.empty (args_for ''a1'') = Inr ''a1''
   \<and> createAgent_resume (Inr (1::nat)) Map.empty ''a1'' = (Inr 1, [''a1'' \<mapsto> 1])
   \<and> getAgent [''a1'' \<mapsto> (1::nat)] ''a1'' = Some 1
   \<and> createAgent_resume (Inr (2::nat)) [''a1'' \<mapsto> 1] ''a1'' = (Inr 2, [''a1'' \<mapsto> 2])
   \<and> createAgent_overlapping (Inr (1::nat)) (Inr 2) Map.empty (args_for ''a1'') (args_for ''a1'')
       = ((Inr 1, Inr 2), [''a1'' \<mapsto> 2])
   \<and> getAgent (snd (createAgent_overlapping (Inr (1::nat)) (Inr 2) Map.empty
                      (args_for ''a1'') (args_for ''a1''))) ''a1'' = Some 2
   \<and> createAgent (\<lambda>_. Inr (2::nat)) [''a1'' \<mapsto> 1] (args_for ''a1'')
       = (Inl (Error ''Agent with ID a1 already exists.''), [''a1'' \<mapsto> 1])"
  by (simp add: createAgent_overlapping_def createAgent_def createAgent_start_def
                createAgent_resume_def getAgent_def args_for_def)

subsection \<open>Local sandbox: \<open>exec\<close>\<close>




subsection \<open>Local sandbox: the traversal guard of the file operations\<close>

text \<open>
  Claim C4. A path that contains \<open>..\<close> is to be refused. \<open>writeFile\<close> and \<open>readFile\<close>
  look for \<open>..\<close> in the result of \<open>path.join\<close>, which has already resolved the \<open>..\<close>
  segments, so the guard does not fire: with the base directory \<open>/srv/app\<close>, writing
  \<open>../outside.txt\<close> succeeds and stores the file at \<open>/srv/outside.txt\<close>, outside the base
  directory, and \<open>../../etc/passwd\<close> is read. Only \<open>startProcess\<close> (and \<open>exec\<close>), which
  inspect the raw \<open>cwd\<close>, refuse.
\<close>

theorem writeFile_readFile_escape_base:
  "str_includes ''../outside.txt'' ''..''
   \<and> fst (writeFile ''/srv/app'' Map.empty ''../outside.txt'' ''x'')
       = \<lparr>wr_success = True, wr_path = ''../outside.txt'', wr_error = None\<rparr>
   \<and> snd (writeFile ''/srv/app'' Map.empty ''../outside.txt'' ''x'') ''/srv/outside.txt'' = Some ''x''
   \<and> \<not> prefix (getBasePath ''/srv/app'') ''/srv/outside.txt''
   \<and> str_includes ''../../etc/passwd'' ''..''
   \<and> readFile ''/srv/app'' [''/etc/passwd'' \<mapsto> ''root''] ''../../etc/passwd''
       = \<lparr>rd_success = True, rd_content = ''root'', rd_error = None, rd_exitCode = 0\<rparr>
   \<and> startProcess (\<lambda>c d. ''4242'') ''/srv/app'' ''ls'' (Some ''../outside'')
       = Inl (Error ''Directory traversal is not allowed.'')"
  by code_simp

subsection \<open>Conversation log\<close>

lemma dedup_seen_ids:
  "set (map conversationId (dedup_seen seen ms)) = set (map conversationId ms) - seen
   \<and> distinct (map conversationId (dedup_seen seen ms))"
  by (induction ms arbitrary: seen) auto

lemma dedup_seen_id:
  "distinct (map conversationId ms) \<Longrightarrow> set (map conversationId ms) \<inter> seen = {}
   \<Longrightarrow> dedup_seen seen ms = ms"
  by (induction ms arbitrary: seen) auto

lemma dedup_seen_find:
  "c \<notin> seen \<Longrightarrow>
   find (\<lambda>x. conversationId x = c) (dedup_seen seen ms) = find (\<lambda>x. conversationId x = c) ms"
  by (induction ms arbitrary: seen) auto

lemma dedup_seen_subseq: "subseq (dedup_seen seen ms) ms"
  by (induction ms arbitrary: seen) auto

lemma deduplicateMessages_distinct: "distinct (map conversationId (deduplicateMessages ms))"
  by (simp add: deduplicateMessages_def dedup_seen_ids)

lemma deduplicateMessages_id:
  "distinct (map conversationId ms) \<Longrightarrow> deduplicateMessages ms = ms"
  by (simp add: deduplicateMessages_def dedup_seen_id)

lemma replace_is_update:
  assumes d: "distinct (map conversationId h)" and i: "i < length h"
    and c: "conversationId (h ! i) = conversationId m"
  shows "map (\<lambda>x. if conversationId x = conversationId m then m else x) h = h[i := m]"
proof (rule nth_equalityI)
  show "length (map (\<lambda>x. if conversationId x = conversationId m then m else x) h) = length (h[i := m])"
    by simp
next
  fix j assume "j < length (map (\<lambda>x. if conversationId x = conversationId m then m else x) h)"
  then have j: "j < length h" by simp
  show "map (\<lambda>x. if conversationId x = conversationId m then m else x) h ! j = h[i := m] ! j"
  proof (cases "j = i")
    case True
    with i c show ?thesis by simp
  next
    case False
    have "map conversationId h ! j \<noteq> map conversationId h ! i"
      using d i j False nth_eq_iff_index_eq [of "map conversationId h" j i] by simp
    with i j c False show ?thesis by simp
  qed
qed

lemma find_None_ids:
  "(find (\<lambda>x. conversationId x = c) h = None) = (c \<notin> set (map conversationId h))"
  by (auto simp: find_None_iff)

lemma push_or_replace_distinct:
  "distinct (map conversationId h) \<Longrightarrow> distinct (map conversationId (push_or_replace h m))"
proof (cases "conversationId m \<in> set (map conversationId h)")
  case False
  assume "distinct (map conversationId h)"
  with False show ?thesis by (simp add: push_or_replace_def find_None_ids)
next
  case True
  assume d: "distinct (map conversationId h)"
  have "map conversationId (map (\<lambda>x. if conversationId x = conversationId m then m else x) h)
        = map conversationId h"
    by (induction h) auto
  with True d show ?thesis by (simp add: push_or_replace_def find_None_ids del: map_map)
qed

lemma push_or_replace_spec:
  assumes d: "distinct (map conversationId h)"
  shows "(conversationId m \<in> set (map conversationId h) \<longrightarrow>
            (\<exists>i<length h. conversationId (h ! i) = conversationId m \<and> push_or_replace h m = h[i := m]))
         \<and> (conversationId m \<notin> set (map conversationId h) \<longrightarrow> push_or_replace h m = h @ [m])"
proof (intro conjI impI)
  assume a: "conversationId m \<in> set (map conversationId h)"
  then obtain i where i: "i < length h" and c: "conversationId (h ! i) = conversationId m"
    by (auto simp: in_set_conv_nth)
  from replace_is_update [OF d i c] i c a
  show "\<exists>i<length h. conversationId (h ! i) = conversationId m \<and> push_or_replace h m = h[i := m]"
    by (auto simp: push_or_replace_def find_None_ids intro!: exI [of _ i])
next
  assume "conversationId m \<notin> set (map conversationId h)"
  then show "push_or_replace h m = h @ [m]"
    by (simp add: push_or_replace_def find_None_ids)
qed

lemma push_or_replace_nonempty: "push_or_replace h m \<noteq> []"
  by (cases h) (auto simp: push_or_replace_def)

lemma get_after_add:
  "runningHistory (getConversationState (addConversationMessage st m) DEFAULT_CONVERSATION_SESSION_ID)
     = push_or_replace (runningHistory (getConversationState st DEFAULT_CONVERSATION_SESSION_ID)) m
   \<and> fullHistory (getConversationState (addConversationMessage st m) DEFAULT_CONVERSATION_SESSION_ID)
     = push_or_replace (fullHistory (getConversationState st DEFAULT_CONVERSATION_SESSION_ID)) m"
proof -
  let ?cs = "getConversationState st DEFAULT_CONVERSATION_SESSION_ID"
  have dr: "distinct (map conversationId (runningHistory ?cs))"
    and df: "distinct (map conversationId (fullHistory ?cs))"
    by (simp_all add: getConversationState_def Let_def deduplicateMessages_distinct)
  have sid: "cs_id ?cs = DEFAULT_CONVERSATION_SESSION_ID"
    by (simp add: getConversationState_def Let_def)
  show ?thesis
    using sid push_or_replace_nonempty [of "runningHistory ?cs" m]
      push_or_replace_nonempty [of "fullHistory ?cs" m]
      deduplicateMessages_id [OF push_or_replace_distinct [OF dr, of m]]
      deduplicateMessages_id [OF push_or_replace_distinct [OF df, of m]]
    by (simp add: addConversationMessage_def setConversationState_def Let_def parse_rows_def
          getConversationState_def [of "_\<lparr>compact_conversations := _, full_conversations := _\<rparr>"])
qed

text \<open>
  Claim C6. The histories returned by \<open>getConversationState\<close> carry each conversation id at
  most once. After \<open>addConversationMessage\<close>, each of the two histories read back is the
  previous one with the message of the same id replaced at its position (same length) when
  the id was present in that history, and with the message appended when it was not. The
  deduplication on read returns a subsequence of its input in which the message kept for an
  id is the first one of the input with that id.
\<close>

theorem conversation_ids_unique_replace_in_place:
  "distinct (map conversationId (runningHistory (getConversationState st sid)))
   \<and> distinct (map conversationId (fullHistory (getConversationState st sid)))
   \<and> (\<forall>sel \<in> {runningHistory, fullHistory}.
        (conversationId m \<in> set (map conversationId (sel (getConversationState st DEFAULT_CONVERSATION_SESSION_ID)))
           \<longrightarrow> (\<exists>i < length (sel (getConversationState st DEFAULT_CONVERSATION_SESSION_ID)).
                  conversationId (sel (getConversationState st DEFAULT_CONVERSATION_SESSION_ID) ! i) = conversationId m
                  \<and> sel (getConversationState (addConversationMessage st m) DEFAULT_CONVERSATION_SESSION_ID)
                      = (sel (getConversationState st DEFAULT_CONVERSATION_SESSION_ID))[i := m]))
        \<and> (conversationId m \<notin> set (map conversationId (sel (getConversationState st DEFAULT_CONVERSATION_SESSION_ID)))
           \<longrightarrow> sel (getConversationState (addConversationMessage st m) DEFAULT_CONVERSATION_SESSION_ID)
                 = sel (getConversationState st DEFAULT_CONVERSATION_SESSION_ID) @ [m]))
   \<and> subseq (deduplicateMessages ms) ms
   \<and> (\<forall>c. find (\<lambda>x. conversationId x = c) (deduplicateMessages ms)
           = find (\<lambda>x. conversationId x = c) ms)"
proof -
  let ?cs = "getConversationState st DEFAULT_CONVERSATION_SESSION_ID"
  have d: "distinct (map conversationId (runningHistory (getConversationState st s)))"
          "distinct (map conversationId (fullHistory (getConversationState st s)))" for s
    by (simp_all add: getConversationState_def Let_def deduplicateMessages_distinct)
  have r: "subseq (deduplicateMessages ms) ms"
    by (simp add: deduplicateMessages_def dedup_seen_subseq)
  have f: "\<forall>c. find (\<lambda>x. conversationId x = c) (deduplicateMessages ms)
           = find (\<lambda>x. conversationId x = c) ms"
    by (simp add: deduplicateMessages_def dedup_seen_find)
  from d r f get_after_add [of st m]
    push_or_replace_spec [OF d(1), of m DEFAULT_CONVERSATION_SESSION_ID]
    push_or_replace_spec [OF d(2), of m DEFAULT_CONVERSATION_SESSION_ID]
  show ?thesis by simp
qed

theorem conversation_ids_unique_replace_in_place_witness:
  "runningHistory (getConversationState (addConversationMessage
       \<lparr>conversationMessages =
          [\<lparr>conversationId = ''a'', role = User, content = ''hi''\<rparr>,
           \<lparr>conversationId = ''b'', role = Assistant, content = ''hel''\<rparr>],
        full_conversations = Map.empty, compact_conversations = Map.empty\<rparr>
       \<lparr>conversationId = ''b'', role = Assistant, content = ''hello''\<rparr>) DEFAULT_CONVERSATION_SESSION_ID)
     = [\<lparr>conversationId = ''a'', role = User, content = ''hi''\<rparr>,
        \<lparr>conversationId = ''b'', role = Assistant, content = ''hello''\<rparr>]
   \<and> fullHistory (getConversationState (addConversationMessage
       \<lparr>conversationMessages =
          [\<lparr>conversationId = ''a'', role = User, content = ''hi''\<rparr>,
           \<lparr>conversationId = ''b'', role = Assistant, content = ''hel''\<rparr>],
        full_conversations = Map.empty, compact_conversations = Map.empty\<rparr>
       \<lparr>conversationId = ''c'', role = User, content = ''more''\<rparr>) DEFAULT_CONVERSATION_SESSION_ID)
     = [\<lparr>conversationId = ''a'', role = User, content = ''hi''\<rparr>,
        \<lparr>conversationId = ''b'', role = Assistant, content = ''hel''\<rparr>,
        \<lparr>conversationId = ''c'', role = User, content = ''more''\<rparr>]"
proof -
  let ?a = "\<lparr>conversationId = ''a'', role = User, content = ''hi''\<rparr>"
  let ?b = "\<lparr>conversationId = ''b'', role = Assistant, content = ''hel''\<rparr>"
  let ?b' = "\<lparr>conversationId = ''b'', role = Assistant, content = ''hello''\<rparr>"
  let ?c = "\<lparr>conversationId = ''c'', role = User, content = ''more''\<rparr>"
  let ?st = "\<lparr>conversationMessages = [?a, ?b],
        full_conversations = Map.empty, compact_conversations = Map.empty\<rparr>"
  let ?D = DEFAULT_CONVERSATION_SESSION_ID
  have h: "getConversationState ?st ?D = \<lparr>cs_id = ?D, runningHistory = [?a, ?b], fullHistory = [?a, ?b]\<rparr>"
    by (simp add: getConversationState_def parse_rows_def deduplicateMessages_def Let_def)
  have inb: "conversationId ?b' \<in> set (map conversationId (runningHistory (getConversationState ?st ?D)))"
    by (simp add: h)
  have notc: "conversationId ?c \<notin> set (map conversationId (fullHistory (getConversationState ?st ?D)))"
    by (simp add: h)
  from conversation_ids_unique_replace_in_place [of ?st ?D ?b' "[]"] inb
  obtain i where i: "i < length (runningHistory (getConversationState ?st ?D))"
    and ci: "conversationId (runningHistory (getConversationState ?st ?D) ! i) = conversationId ?b'"
    and ri: "runningHistory (getConversationState (addConversationMessage ?st ?b') ?D)
              = (runningHistory (getConversationState ?st ?D))[i := ?b']"
    by blast
  from i ci have "i = 1"
    by (cases i) (auto simp: h)
  with ri have 1: "runningHistory (getConversationState (addConversationMessage ?st ?b') ?D) = [?a, ?b']"
    by (simp add: h)
  from conversation_ids_unique_replace_in_place [of ?st ?D ?c "[]"] notc
  have 2: "fullHistory (getConversationState (addConversationMessage ?st ?c) ?D)
            = fullHistory (getConversationState ?st ?D) @ [?c]"
    by blast
  from 1 2 show ?thesis by (simp add: h)
qed

subsection \<open>Rate-limit store\<close>

lemma bucket_keys_loop_closed:
  assumes bs: "0 < bs"
  shows "n = nat ((now - time) div bs + 1) \<Longrightarrow>
         bucket_keys_loop key now bs time acc
           = Some (acc @ map (\<lambda>i. (key, At (time + int i * bs))) [0..<n])"
proof (induction n arbitrary: time acc)
  case 0
  then have "(now - time) div bs + 1 \<le> 0" by simp
  then have "(now - time) div bs < 0" by simp
  with bs have "now - time < 0"
    by (simp add: pos_imp_zdiv_neg_iff)
  then show ?case
    by (subst bucket_keys_loop.simps) simp
next
  case (Suc n)
  then have pos: "0 < (now - time) div bs + 1" by linarith
  then have "0 \<le> (now - time) div bs" by simp
  with bs have le: "time \<le> now"
    by (simp add: pos_imp_zdiv_nonneg_iff)
  have "(now - (time + bs)) div bs = (now - time) div bs - 1"
  proof -
    have "now - (time + bs) = (now - time) + (- 1) * bs" by simp
    then have "(now - (time + bs)) div bs = ((now - time) + (- 1) * bs) div bs" by (simp only:)
    also have "\<dots> = (now - time) div bs + (- 1)"
      using bs by (subst div_mult_self1) simp_all
    finally show ?thesis by simp
  qed
  with Suc.prems have n: "n = nat ((now - (time + bs)) div bs + 1)" by simp
  have m: "map (\<lambda>i. (key, At (time + int i * bs))) [0..<Suc n]
           = (key, At time) # map (\<lambda>i. (key, At (time + bs + int i * bs))) [0..<n]"
    by (simp add: map_upt_Suc algebra_simps del: upt_Suc)
  show ?case
    using le Suc.IH [OF n, of "acc @ [(key, At time)]"] m
    by (subst bucket_keys_loop.simps) (simp del: upt_Suc)
qed

lemma foldl_add_sum_list:
  "foldl (\<lambda>s x. s + f x) a xs = (a::int) + sum_list (map f xs)"
  by (induction xs arbitrary: a) (simp_all add: add.assoc)


lemma visited_timestamps:
  assumes bs: "0 < bs" and dv: "bs dvd start" and n: "n = nat ((now - start) div bs + 1)"
  shows "(\<lambda>i. start + int i * bs) ` {0..<n} = {t \<in> {start..now}. bs dvd t}"
proof (intro set_eqI iffI)
  fix t assume "t \<in> (\<lambda>i. start + int i * bs) ` {0..<n}"
  then obtain i where i: "i < n" and t: "t = start + int i * bs" by auto
  from i n have "int i \<le> (now - start) div bs" by linarith
  with bs have "int i * bs \<le> (now - start) div bs * bs"
    by (simp add: mult_right_mono)
  also have "\<dots> \<le> now - start"
    using bs div_mult_mod_eq [of "now - start" bs] pos_mod_sign [of bs "now - start"] by linarith
  finally have "t \<le> now" using t by simp
  moreover have "start \<le> t" using t bs by simp
  moreover have "bs dvd t" using t dv by simp
  ultimately show "t \<in> {t \<in> {start..now}. bs dvd t}" by simp
next
  fix t assume "t \<in> {t \<in> {start..now}. bs dvd t}"
  then have lo: "start \<le> t" and hi: "t \<le> now" and d: "bs dvd t" by simp_all
  from d dv have "bs dvd (t - start)" by simp
  then obtain k where k: "t - start = bs * k" by (auto simp: dvd_def)
  with lo have "0 \<le> bs * k" by simp
  with bs have k0: "0 \<le> k" by (simp add: zero_le_mult_iff)
  have "k = (t - start) div bs" using k bs by simp
  also have "\<dots> \<le> (now - start) div bs"
    using hi bs by (simp add: zdiv_mono1)
  finally have kn: "nat k < n" using n k0 by linarith
  have "t = start + int (nat k) * bs" using k k0 by (simp add: mult.commute)
  with kn show "t \<in> (\<lambda>i. start + int i * bs) ` {0..<n}"
    by (intro image_eqI [where x = "nat k"]) simp_all
qed

lemma generateBucketKeys_sum:
  assumes bs: "0 < bs"
  shows "\<exists>keys. generateBucketKeys key now w bs = Some keys
           \<and> sum_buckets store now keys = window_count store now key w bs"
proof -
  let ?start = "(now - w) div bs * bs"
  let ?n = "nat ((now - ?start) div bs + 1)"
  let ?h = "\<lambda>i. ?start + int i * bs"
  let ?keys = "map (\<lambda>i. (key, At (?h i))) [0..<?n]"
  have g: "generateBucketKeys key now w bs = Some ?keys"
    using bucket_keys_loop_closed [OF bs refl, of key now ?start "[]"] bs
    by (simp add: generateBucketKeys_def floor_multiple_def)
  have inj: "inj_on ?h {0..<?n}"
    using bs by (auto simp: inj_on_def)
  have "sum_buckets store now ?keys
        = sum_list (map (\<lambda>i. live_count store now (key, At (?h i))) [0..<?n])"
    by (simp add: sum_buckets_def foldl_add_sum_list comp_def)
  also have "\<dots> = (\<Sum>i \<in> {0..<?n}. live_count store now (key, At (?h i)))"
    by (simp add: sum_list_distinct_conv_sum_set)
  also have "\<dots> = (\<Sum>t \<in> ?h ` {0..<?n}. live_count store now (key, At t))"
    using inj by (simp add: sum.reindex comp_def)
  also have "?h ` {0..<?n} = window_buckets now w bs"
    using visited_timestamps [OF bs _ refl, of ?start now]
    by (simp add: window_buckets_def)
  finally have "sum_buckets store now ?keys = window_count store now key w bs"
    by (simp add: window_count_def)
  with g show ?thesis by blast
qed


lemma live_count_cleanup:
  "tc \<le> now \<Longrightarrow> live_count (cleanup tc store) now k = live_count store now k"
  by (auto simp: live_count_def cleanup_def split: option.splits)

lemma window_count_cleanup:
  "tc \<le> now \<Longrightarrow> window_count (cleanup tc store) now key w bs = window_count store now key w bs"
  by (simp add: window_count_def live_count_cleanup)

lemma window_count_swept:
  "sweep_time_ok c now \<Longrightarrow> window_count (swept c store) now key w bs = window_count store now key w bs"
  by (cases c) (simp_all add: swept_def sweep_time_ok_def window_count_cleanup)

lemma live_count_swept:
  "sweep_time_ok c now \<Longrightarrow> live_count (swept c store) now k = live_count store now k"
  by (cases c) (simp_all add: swept_def sweep_time_ok_def live_count_cleanup)

lemma increment_result:
  assumes bs: "0 < or_default (bucketSize config) 10" and ok: "sweep_time_ok cleanupAt now"
  shows "increment store0 cleanupAt now key config =
     Some (let bucketSizeMs = or_default (bucketSize config) 10 * 1000;
               mainCount = window_count store0 now key (period config * 1000) bucketSizeMs;
               burstCount = window_count store0 now key (or_default (burstWindow config) 60 * 1000) bucketSizeMs;
               current = (key, At (now div bucketSizeMs * bucketSizeMs));
               expires = now + (max (period config) (or_default (burstWindow config) 60)
                                 + or_default (bucketSize config) 10) * 1000
           in if mainCount \<ge> limit config
              then (\<lparr>success = False, remainingLimit = Some 0\<rparr>, swept cleanupAt store0)
              else if burst_configured config \<and> burstCount \<ge> the (burst config)
              then (\<lparr>success = False, remainingLimit = Some 0\<rparr>, swept cleanupAt store0)
              else (\<lparr>success = True, remainingLimit = Some (max 0 (limit config - mainCount - 1))\<rparr>,
                    (swept cleanupAt store0)
                      (current \<mapsto> \<lparr>count = live_count store0 now current + 1, expiresAt = expires\<rparr>)))"
proof -
  let ?bs = "or_default (bucketSize config) 10 * 1000"
  let ?st = "swept cleanupAt store0"
  from bs have bs': "0 < ?bs" by simp
  obtain mainBuckets where m: "generateBucketKeys key now (period config * 1000) ?bs = Some mainBuckets"
    and mc: "sum_buckets ?st now mainBuckets = window_count store0 now key (period config * 1000) ?bs"
    using generateBucketKeys_sum [OF bs', of key now "period config * 1000" ?st]
      window_count_swept [OF ok] by auto
  obtain burstBuckets where b: "generateBucketKeys key now (or_default (burstWindow config) 60 * 1000) ?bs = Some burstBuckets"
    and bc: "sum_buckets ?st now burstBuckets
             = window_count store0 now key (or_default (burstWindow config) 60 * 1000) ?bs"
    using generateBucketKeys_sum [OF bs', of key now "or_default (burstWindow config) 60 * 1000" ?st]
      window_count_swept [OF ok] by auto
  have cur: "(case ?st k of
               None \<Rightarrow> ?st(k \<mapsto> \<lparr>count = 1, expiresAt = e\<rparr>)
             | Some currentBucket \<Rightarrow>
                 if expiresAt currentBucket > now
                 then ?st(k \<mapsto> \<lparr>count = count currentBucket + 1, expiresAt = e\<rparr>)
                 else ?st(k \<mapsto> \<lparr>count = 1, expiresAt = e\<rparr>))
             = ?st(k \<mapsto> \<lparr>count = live_count store0 now k + 1, expiresAt = e\<rparr>)" for k e
    using live_count_swept [OF ok, of store0 k]
    by (auto simp: live_count_def split: option.splits)
  have fm: "floor_multiple now ?bs = At (now div ?bs * ?bs)"
    using bs' by (simp add: floor_multiple_def)
  show ?thesis
    unfolding increment_def swept_def [symmetric]
    by (simp add: m b mc bc cur fm Let_def)
qed


lemma finite_window_buckets: "finite (window_buckets now w bs)"
  unfolding window_buckets_def by (rule finite_subset [of _ "{(now - w) div bs * bs .. now}"]) auto

lemma current_bucket_in_window:
  assumes bs: "0 < bs" and lo: "now - w \<le> t" and hi: "t \<le> now"
  shows "t div bs * bs \<in> window_buckets now w bs"
proof -
  have "(now - w) div bs \<le> t div bs" using lo bs by (simp add: zdiv_mono1)
  with bs have 1: "(now - w) div bs * bs \<le> t div bs * bs" by (simp add: mult_right_mono)
  have "t div bs * bs \<le> t"
    using bs div_mult_mod_eq [of t bs] pos_mod_sign [of bs t] by linarith
  with hi have 2: "t div bs * bs \<le> now" by simp
  from 1 2 show ?thesis by (simp add: window_buckets_def)
qed

lemma window_sum_delta:
  "a \<in> window_buckets now w bs \<Longrightarrow>
   (\<Sum>t \<in> window_buckets now w bs. if t = a then c else (0::int)) = c"
  by (simp add: finite_window_buckets)

lemma live_count_update:
  "live_count (s(k \<mapsto> \<lparr>count = c, expiresAt = e\<rparr>)) now k'
     = (if k' = k then (if e > now then c else 0) else live_count s now k')"
  by (simp add: live_count_def)

lemma swept_None: "store k = None \<Longrightarrow> swept c store k = None"
  by (cases c) (simp_all add: swept_def cleanup_def)

lemma sweep_time_ok_mono: "sweep_time_ok c t \<Longrightarrow> t \<le> t' \<Longrightarrow> sweep_time_ok c t'"
  by (cases c) (simp_all add: sweep_time_ok_def)

lemma increment_trip_config:
  assumes ok: "sweep_time_ok c now"
  shows "increment store c now key trip_config =
     Some (if window_count store now key 60000 10000 \<ge> 2
           then (\<lparr>success = False, remainingLimit = Some 0\<rparr>, swept c store)
           else (\<lparr>success = True,
                  remainingLimit = Some (max 0 (2 - window_count store now key 60000 10000 - 1))\<rparr>,
                 (swept c store)((key, At (now div 10000 * 10000)) \<mapsto>
                    \<lparr>count = live_count store now (key, At (now div 10000 * 10000)) + 1,
                     expiresAt = now + 70000\<rparr>)))"
  using increment_result [of trip_config, OF _ ok, of store key]
  by (simp add: trip_config_def or_default_def burst_configured_def Let_def)

lemma three_increments:
  assumes no: "\<forall>t. store0 (key, t) = None"
    and o1: "sweep_time_ok c1 t1" and o2: "sweep_time_ok c2 t2" and o3: "sweep_time_ok c3 t3"
    and t12: "t1 \<le> t2" and t23: "t2 \<le> t3" and t31: "t3 \<le> t1 + 10000"
  shows "\<exists>s1 s2 s3.
           increment store0 c1 t1 key trip_config = Some (\<lparr>success = True, remainingLimit = Some 1\<rparr>, s1)
         \<and> increment s1 c2 t2 key trip_config = Some (\<lparr>success = True, remainingLimit = Some 0\<rparr>, s2)
         \<and> increment s2 c3 t3 key trip_config = Some (\<lparr>success = False, remainingLimit = Some 0\<rparr>, s3)"
proof -
  define b1 where "b1 = t1 div 10000 * 10000"
  define b2 where "b2 = t2 div 10000 * 10000"
  define s1 where "s1 = (swept c1 store0)((key, At b1) \<mapsto> \<lparr>count = 1, expiresAt = t1 + 70000\<rparr>)"
  define s2 where "s2 = (swept c2 s1)((key, At b2) \<mapsto>
                      \<lparr>count = live_count s1 t2 (key, At b2) + 1, expiresAt = t2 + 70000\<rparr>)"
  have l0: "live_count store0 t1 (key, t) = 0" for t
    using no by (simp add: live_count_def)
  then have w0: "window_count store0 t1 key 60000 10000 = 0"
    by (simp add: window_count_def)
  have i1: "increment store0 c1 t1 key trip_config
            = Some (\<lparr>success = True, remainingLimit = Some 1\<rparr>, s1)"
    by (simp add: increment_trip_config [OF o1] w0 l0 s1_def b1_def)
  have l1: "live_count s1 now (key, At t) = (if t = b1 then 1 else 0)" if "now < t1 + 70000" for now t
    using that no by (simp add: s1_def live_count_update) (simp add: live_count_def swept_None)
  have b1w2: "b1 \<in> window_buckets t2 60000 10000"
    unfolding b1_def using t12 t23 t31 by (intro current_bucket_in_window) simp_all
  have b1w3: "b1 \<in> window_buckets t3 60000 10000"
    unfolding b1_def using t12 t23 t31 by (intro current_bucket_in_window) simp_all
  have b2w3: "b2 \<in> window_buckets t3 60000 10000"
    unfolding b2_def using t12 t23 t31 by (intro current_bucket_in_window) simp_all
  have w1: "window_count s1 t2 key 60000 10000 = 1"
    using t12 t23 t31 by (simp add: window_count_def l1 window_sum_delta [OF b1w2])
  have i2: "increment s1 c2 t2 key trip_config
            = Some (\<lparr>success = True, remainingLimit = Some 0\<rparr>, s2)"
    by (simp add: increment_trip_config [OF o2] w1 s2_def b2_def)
  have l2: "live_count s2 t3 (key, At t)
            = (if t = b2 then (if b2 = b1 then 2 else 1) else if t = b1 then 1 else 0)" for t
    using t12 t23 t31 live_count_swept [OF sweep_time_ok_mono [OF o2 t23], of s1]
    by (simp add: s2_def live_count_update l1)
  have w2: "window_count s2 t3 key 60000 10000 = 2"
  proof (cases "b2 = b1")
    case True
    have "window_count s2 t3 key 60000 10000
          = (\<Sum>t \<in> window_buckets t3 60000 10000. if t = b1 then 2 else 0)"
      unfolding window_count_def l2 using True by (intro sum.cong) auto
    also have "\<dots> = 2" by (rule window_sum_delta [OF b1w3])
    finally show ?thesis .
  next
    case False
    have "window_count s2 t3 key 60000 10000
          = (\<Sum>t \<in> window_buckets t3 60000 10000.
               (if t = b2 then 1 else 0) + (if t = b1 then 1 else 0))"
      unfolding window_count_def l2 using False by (intro sum.cong) auto
    also have "\<dots> = (\<Sum>t \<in> window_buckets t3 60000 10000. if t = b2 then 1 else 0)
                    + (\<Sum>t \<in> window_buckets t3 60000 10000. if t = b1 then 1 else 0)"
      by (rule sum.distrib)
    also have "\<dots> = 2"
      by (simp add: window_sum_delta [OF b1w3] window_sum_delta [OF b2w3])
    finally show ?thesis .
  qed
  have i3: "increment s2 c3 t3 key trip_config
            = Some (\<lparr>success = False, remainingLimit = Some 0\<rparr>, swept c3 s2)"
    by (simp add: increment_trip_config [OF o3] w2)
  from i1 i2 i3 show ?thesis by blast
qed

text \<open>
  For a positive bucket size, \<open>increment\<close> returns, and its result is determined by the sums
  of the live bucket counts of the key over the buckets that reach back \<open>period\<close> seconds (and
  \<open>burstWindow\<close> seconds): when the main sum has reached \<open>limit\<close> it answers
  \<open>{success: false, remainingLimit: 0}\<close> and no bucket is incremented (the store is the swept
  input); when a burst is configured (present and non-zero, as the source's truthiness test
  reads it) and the burst sum has reached it, likewise; otherwise the current bucket's live
  count goes up by one, its expiry is renewed, and the answer is success with
  \<open>max(0, limit - mainCount - 1)\<close>. With limit 2, period 60 and bucket size 10, three
  increments of a key without buckets, made within ten seconds of each other, answer
  success/1, success/0 and failure/0, whatever sweeps happen in between.
\<close>

lemma increment_positive_bucket_size:
  "(0 < or_default (bucketSize config) 10 \<and> sweep_time_ok cleanupAt now \<longrightarrow>
     increment store0 cleanupAt now key config =
       Some (let bucketSizeMs = or_default (bucketSize config) 10 * 1000;
                 mainCount = window_count store0 now key (period config * 1000) bucketSizeMs;
                 burstCount = window_count store0 now key (or_default (burstWindow config) 60 * 1000) bucketSizeMs;
                 current = (key, At (now div bucketSizeMs * bucketSizeMs));
                 expires = now + (max (period config) (or_default (burstWindow config) 60)
                                   + or_default (bucketSize config) 10) * 1000
             in if mainCount \<ge> limit config
                then (\<lparr>success = False, remainingLimit = Some 0\<rparr>, swept cleanupAt store0)
                else if burst_configured config \<and> burstCount \<ge> the (burst config)
                then (\<lparr>success = False, remainingLimit = Some 0\<rparr>, swept cleanupAt store0)
                else (\<lparr>success = True, remainingLimit = Some (max 0 (limit config - mainCount - 1))\<rparr>,
                      (swept cleanupAt store0)
                        (current \<mapsto> \<lparr>count = live_count store0 now current + 1, expiresAt = expires\<rparr>))))
   \<and> ((\<forall>t. store1 (user, t) = None)
        \<and> sweep_time_ok c1 t1 \<and> sweep_time_ok c2 t2 \<and> sweep_time_ok c3 t3
        \<and> t1 \<le> t2 \<and> t2 \<le> t3 \<and> t3 \<le> t1 + 10000 \<longrightarrow>
        (\<exists>s1 s2 s3.
           increment store1 c1 t1 user trip_config = Some (\<lparr>success = True, remainingLimit = Some 1\<rparr>, s1)
         \<and> increment s1 c2 t2 user trip_config = Some (\<lparr>success = True, remainingLimit = Some 0\<rparr>, s2)
         \<and> increment s2 c3 t3 user trip_config = Some (\<lparr>success = False, remainingLimit = Some 0\<rparr>, s3)))"
  using increment_result [of config cleanupAt now store0 key]
    three_increments [of store1 user c1 t1 c2 t2 c3 t3]
  by blast

lemma increment_positive_bucket_size_example:
  "(\<exists>s1 s2 s3.
      increment Map.empty None 8000 ''u1'' trip_config
        = Some (\<lparr>success = True, remainingLimit = Some 1\<rparr>, s1)
    \<and> increment s1 (Some 9000) 9500 ''u1'' trip_config
        = Some (\<lparr>success = True, remainingLimit = Some 0\<rparr>, s2)
    \<and> increment s2 None 17000 ''u1'' trip_config
        = Some (\<lparr>success = False, remainingLimit = Some 0\<rparr>, s3))
   \<and> map_option fst (increment Map.empty (Some 100) 125000 ''u1''
         \<lparr>limit = 0, period = 60, bucketSize = None, burst = Some 3, burstWindow = None\<rparr>)
       = Some \<lparr>success = False, remainingLimit = Some 0\<rparr>"
proof -
  have h1: "(\<forall>t. (Map.empty :: bucket_store) (''u1'', t) = None)
        \<and> sweep_time_ok None 8000 \<and> sweep_time_ok (Some 9000) 9500 \<and> sweep_time_ok None 17000
        \<and> (8000::int) \<le> 9500 \<and> (9500::int) \<le> 17000 \<and> (17000::int) \<le> 8000 + 10000"
    by (simp add: sweep_time_ok_def)
  have h2: "0 < or_default (bucketSize
              \<lparr>limit = 0, period = 60, bucketSize = None, burst = Some 3, burstWindow = None\<rparr>) 10
            \<and> sweep_time_ok (Some 100) 125000"
    by (simp add: or_default_def sweep_time_ok_def)
  have z: "window_count Map.empty now k w b = 0" for now k w b
    by (simp add: window_count_def live_count_def)
  from increment_positive_bucket_size
    [of _ _ _ _ _ Map.empty "''u1''" None 8000 "Some 9000" 9500 None 17000] h1
  have 1: "\<exists>s1 s2 s3.
      increment Map.empty None 8000 ''u1'' trip_config
        = Some (\<lparr>success = True, remainingLimit = Some 1\<rparr>, s1)
    \<and> increment s1 (Some 9000) 9500 ''u1'' trip_config
        = Some (\<lparr>success = True, remainingLimit = Some 0\<rparr>, s2)
    \<and> increment s2 None 17000 ''u1'' trip_config
        = Some (\<lparr>success = False, remainingLimit = Some 0\<rparr>, s3)"
    by blast
  from increment_positive_bucket_size
    [of "\<lparr>limit = 0, period = 60, bucketSize = None, burst = Some 3, burstWindow = None\<rparr>"
        "Some 100" 125000 Map.empty "''u1''"] h2
  have 2: "map_option fst (increment Map.empty (Some 100) 125000 ''u1''
         \<lparr>limit = 0, period = 60, bucketSize = None, burst = Some 3, burstWindow = None\<rparr>)
       = Some \<lparr>success = False, remainingLimit = Some 0\<rparr>"
    by (simp add: z Let_def)
  from 1 2 show ?thesis by blast
qed

lemma generateBucketKeys_zero: "generateBucketKeys key now w 0 = Some []"
  by (simp add: generateBucketKeys_def floor_multiple_def)

lemma increment_bucket_size_zero:
  "increment store0 cleanupAt now key (config\<lparr>bucketSize := Some 0\<rparr>) =
     Some (if 0 \<ge> limit config
           then (\<lparr>success = False, remainingLimit = Some 0\<rparr>, swept cleanupAt store0)
           else if burst_configured config \<and> 0 \<ge> the (burst config)
           then (\<lparr>success = False, remainingLimit = Some 0\<rparr>, swept cleanupAt store0)
           else (\<lparr>success = True, remainingLimit = Some (max 0 (limit config - 0 - 1))\<rparr>,
                 (swept cleanupAt store0)
                   ((key, NaN) \<mapsto>
                      \<lparr>count = live_count (swept cleanupAt store0) now (key, NaN) + 1,
                       expiresAt = now + (max (period config) (or_default (burstWindow config) 60) + 0)
                                          * 1000\<rparr>)))"
proof -
  let ?st = "swept cleanupAt store0"
  have cur: "(case ?st k of
               None \<Rightarrow> ?st(k \<mapsto> \<lparr>count = 1, expiresAt = e\<rparr>)
             | Some currentBucket \<Rightarrow>
                 if expiresAt currentBucket > now
                 then ?st(k \<mapsto> \<lparr>count = count currentBucket + 1, expiresAt = e\<rparr>)
                 else ?st(k \<mapsto> \<lparr>count = 1, expiresAt = e\<rparr>))
             = ?st(k \<mapsto> \<lparr>count = live_count ?st now k + 1, expiresAt = e\<rparr>)" for k e
    by (auto simp: live_count_def split: option.splits)
  have bc: "burst_configured (config\<lparr>bucketSize := Some 0\<rparr>) = burst_configured config"
    by (simp add: burst_configured_def)
  show ?thesis
    unfolding increment_def swept_def [symmetric]
    by (simp add: generateBucketKeys_zero cur bc sum_buckets_def floor_multiple_def
          or_default_def Let_def)
qed

text \<open>
  Claim C3. With \<open>bucketSize: 0\<close> the store counts nothing. \<open>config.bucketSize ?? 10\<close> keeps
  the zero, every bucket timestamp is \<open>NaN\<close>, the loop of \<open>generateBucketKeys\<close> does not run,
  and both sums are zero whatever the store holds: for every store, key, time and sweep, and for
  every period and burst window, an \<open>increment\<close> with limit 2 and no burst answers success with
  remaining 1. Three increments of one key within three seconds, limit 2 and period 60, all
  answer success/1 where the third should be refused; the one bucket \<open>ratelimit:u1:NaN\<close> of the
  store counts 3, and \<open>getRemainingLimit\<close> still answers 2. The same three calls with bucket
  size 10 answer success/1, success/0 and failure/0.
\<close>

theorem increment_bucket_size_zero_never_rejects:
  "map_option fst
     (increment store0 cleanupAt now key
        \<lparr>limit = 2, period = p, bucketSize = Some 0, burst = None, burstWindow = bw\<rparr>)
     = Some \<lparr>success = True, remainingLimit = Some 1\<rparr>
   \<and> generateBucketKeys key now windowMs 0 = Some []
   \<and> increment Map.empty None 1000 ''u1'' zero_bucket_config
       = Some (\<lparr>success = True, remainingLimit = Some 1\<rparr>,
               [(''u1'', NaN) \<mapsto> \<lparr>count = 1, expiresAt = 61000\<rparr>])
   \<and> increment [(''u1'', NaN) \<mapsto> \<lparr>count = 1, expiresAt = 61000\<rparr>] None 2000 ''u1'' zero_bucket_config
       = Some (\<lparr>success = True, remainingLimit = Some 1\<rparr>,
               [(''u1'', NaN) \<mapsto> \<lparr>count = 2, expiresAt = 62000\<rparr>])
   \<and> increment [(''u1'', NaN) \<mapsto> \<lparr>count = 2, expiresAt = 62000\<rparr>] None 3000 ''u1'' zero_bucket_config
       = Some (\<lparr>success = True, remainingLimit = Some 1\<rparr>,
               [(''u1'', NaN) \<mapsto> \<lparr>count = 3, expiresAt = 63000\<rparr>])
   \<and> getRemainingLimit [(''u1'', NaN) \<mapsto> \<lparr>count = 3, expiresAt = 63000\<rparr>] 3000 ''u1''
       zero_bucket_config = Some 2
   \<and> increment Map.empty None 1000 ''u1'' trip_config
       = Some (\<lparr>success = True, remainingLimit = Some 1\<rparr>,
               [(''u1'', At 0) \<mapsto> \<lparr>count = 1, expiresAt = 71000\<rparr>])
   \<and> increment [(''u1'', At 0) \<mapsto> \<lparr>count = 1, expiresAt = 71000\<rparr>] None 2000 ''u1'' trip_config
       = Some (\<lparr>success = True, remainingLimit = Some 0\<rparr>,
               [(''u1'', At 0) \<mapsto> \<lparr>count = 2, expiresAt = 72000\<rparr>])
   \<and> increment [(''u1'', At 0) \<mapsto> \<lparr>count = 2, expiresAt = 72000\<rparr>] None 3000 ''u1'' trip_config
       = Some (\<lparr>success = False, remainingLimit = Some 0\<rparr>,
               [(''u1'', At 0) \<mapsto> \<lparr>count = 2, expiresAt = 72000\<rparr>])"
proof -
  have z: "increment s c t k zero_bucket_config
           = Some (\<lparr>success = True, remainingLimit = Some 1\<rparr>,
                   (swept c s)((k, NaN) \<mapsto>
                      \<lparr>count = live_count (swept c s) t (k, NaN) + 1, expiresAt = t + 60000\<rparr>))"
    for s c t k
    using increment_bucket_size_zero [of s c t k zero_bucket_config]
    by (simp add: zero_bucket_config_def burst_configured_def or_default_def)
  have g: "map_option fst
     (increment store0 cleanupAt now key
        \<lparr>limit = 2, period = p, bucketSize = Some 0, burst = None, burstWindow = bw\<rparr>)
     = Some \<lparr>success = True, remainingLimit = Some 1\<rparr>"
    using increment_bucket_size_zero
      [of store0 cleanupAt now key
          "\<lparr>limit = 2, period = p, bucketSize = Some 0, burst = None, burstWindow = bw\<rparr>"]
    by (simp add: burst_configured_def)
  have e: "generateBucketKeys key now windowMs 0 = Some []"
    by (rule generateBucketKeys_zero)
  have 1: "increment Map.empty None 1000 ''u1'' zero_bucket_config
       = Some (\<lparr>success = True, remainingLimit = Some 1\<rparr>,
               [(''u1'', NaN) \<mapsto> \<lparr>count = 1, expiresAt = 61000\<rparr>])"
    by (simp add: z swept_def live_count_def)
  have 2: "increment [(''u1'', NaN) \<mapsto> \<lparr>count = 1, expiresAt = 61000\<rparr>] None 2000 ''u1'' zero_bucket_config
       = Some (\<lparr>success = True, remainingLimit = Some 1\<rparr>,
               [(''u1'', NaN) \<mapsto> \<lparr>count = 2, expiresAt = 62000\<rparr>])"
    by (simp add: z swept_def live_count_def)
  have 3: "increment [(''u1'', NaN) \<mapsto> \<lparr>count = 2, expiresAt = 62000\<rparr>] None 3000 ''u1'' zero_bucket_config
       = Some (\<lparr>success = True, remainingLimit = Some 1\<rparr>,
               [(''u1'', NaN) \<mapsto> \<lparr>count = 3, expiresAt = 63000\<rparr>])"
    by (simp add: z swept_def live_count_def)
  have 4: "getRemainingLimit [(''u1'', NaN) \<mapsto> \<lparr>count = 3, expiresAt = 63000\<rparr>] 3000 ''u1''
       zero_bucket_config = Some 2"
    by (simp add: getRemainingLimit_def generateBucketKeys_zero zero_bucket_config_def
          or_default_def sum_buckets_def)
  have w: "window_buckets t 60000 10000 = {- 60000, - 50000, - 40000, - 30000, - 20000, - 10000, 0}"
    if "0 \<le> t" "t < 10000" for t
  proof -
    from that have d: "(t - 60000) div 10000 = - 6" by simp
    have "window_buckets t 60000 10000 = {x \<in> {- 60000 .. t}. 10000 dvd x}"
      by (simp add: window_buckets_def d)
    also have "\<dots> = {- 60000, - 50000, - 40000, - 30000, - 20000, - 10000, 0}"
    proof (intro set_eqI iffI)
      fix x assume "x \<in> {x \<in> {- 60000 .. t}. 10000 dvd x}"
      then obtain k where k: "x = 10000 * k" and lo: "- 60000 \<le> x" and hi: "x \<le> t"
        by (auto simp: dvd_def)
      from k lo hi that have "- 6 \<le> k" "k \<le> 0" by simp_all
      then have "k \<in> {- 6, - 5, - 4, - 3, - 2, - 1, 0}" by auto
      with k show "x \<in> {- 60000, - 50000, - 40000, - 30000, - 20000, - 10000, 0}" by auto
    next
      fix x assume "x \<in> {- 60000, - 50000, - 40000, - 30000, - 20000, - 10000, (0::int)}"
      with that show "x \<in> {x \<in> {- 60000 .. t}. 10000 dvd x}" by auto
    qed
    finally show ?thesis .
  qed
  have t: "increment s None t ''u1'' trip_config =
     Some (if window_count s t ''u1'' 60000 10000 \<ge> 2
           then (\<lparr>success = False, remainingLimit = Some 0\<rparr>, s)
           else (\<lparr>success = True,
                  remainingLimit = Some (max 0 (2 - window_count s t ''u1'' 60000 10000 - 1))\<rparr>,
                 s((''u1'', At 0) \<mapsto>
                    \<lparr>count = live_count s t (''u1'', At 0) + 1, expiresAt = t + 70000\<rparr>)))"
    if "0 \<le> t" "t < 10000" for s t
    using increment_trip_config [of None t s "''u1''"] that
    by (simp add: sweep_time_ok_def swept_def)
  have 5: "increment Map.empty None 1000 ''u1'' trip_config
       = Some (\<lparr>success = True, remainingLimit = Some 1\<rparr>,
               [(''u1'', At 0) \<mapsto> \<lparr>count = 1, expiresAt = 71000\<rparr>])"
    by (simp add: t window_count_def w live_count_def)
  have 6: "increment [(''u1'', At 0) \<mapsto> \<lparr>count = 1, expiresAt = 71000\<rparr>] None 2000 ''u1'' trip_config
       = Some (\<lparr>success = True, remainingLimit = Some 0\<rparr>,
               [(''u1'', At 0) \<mapsto> \<lparr>count = 2, expiresAt = 72000\<rparr>])"
    by (simp add: t window_count_def w live_count_def)
  have 7: "increment [(''u1'', At 0) \<mapsto> \<lparr>count = 2, expiresAt = 72000\<rparr>] None 3000 ''u1'' trip_config
       = Some (\<lparr>success = False, remainingLimit = Some 0\<rparr>,
               [(''u1'', At 0) \<mapsto> \<lparr>count = 2, expiresAt = 72000\<rparr>])"
    by (simp add: t window_count_def w live_count_def)
  from g e 1 2 3 4 5 6 7 show ?thesis by blast
qed

subsection \<open>Phasic build loop\<close>

lemma loop_body_generating:
  assumes b: "loop_body env PHASE_GENERATING pc a = (r, a')"
  shows "events a' = events a @ [Executing PHASE_GENERATING]
         \<and> (case r of Inl _ \<Rightarrow> True | Inr (ds', _) \<Rightarrow> phases_left ds' a' \<le> phases_left PHASE_GENERATING a)
         \<and> (env_never_throws env \<longrightarrow>
              (\<exists>pc'. r = Inr (PHASE_IMPLEMENTING, pc') \<or> r = Inr (FINALIZING, pc')))"
proof -
  from b have g: "executePhaseGeneration env (emit (Executing PHASE_GENERATING) a) = (r, a')"
    by (simp add: loop_body_def)
  note gf = executePhaseGeneration_fields [OF g] emit_fields [of "Executing PHASE_GENERATING" a]
  have nt: "\<exists>pc'. r = Inr (PHASE_IMPLEMENTING, pc') \<or> r = Inr (FINALIZING, pc')"
    if "env_never_throws env"
  proof -
    from that obtain x y where
      x: "fetchAllIssuesOp env (opCalls (emit (Executing PHASE_GENERATING) a)) = Returns x"
      and y: "generateNextPhaseOp env (Suc (opCalls (emit (Executing PHASE_GENERATING) a))) = Returns y"
      unfolding env_never_throws_def by metis
    with g show ?thesis
      by (auto simp: executePhaseGeneration_def fetchAllIssues_def fetchPendingUserRequests_def
            generateNextPhase_def tick_def Let_def split: if_splits)
  qed
  from gf nt show ?thesis
    by (cases r) (auto simp: phases_left_def)
qed


lemma implement_known_phase_never_throws:
  assumes nt: "env_never_throws env" and k: "implement_known_phase env p a = (r, a')"
  shows "r = Inr PHASE_GENERATING \<or> r = Inr FINALIZING"
proof -
  from nt obtain x y where
    x: "fetchAllIssuesOp env (opCalls a) = Returns x"
    and y: "implementPhaseOp env (Suc (opCalls a)) = Returns y"
    unfolding env_never_throws_def by metis
  with k show ?thesis
    by (auto simp: implement_known_phase_def fetchAllIssues_def implementPhase_def tick_def
          decrementPhasesCounter_def Let_def split: if_splits)
qed

lemma executePhaseGeneration_never_throws:
  assumes nt: "env_never_throws env" and g: "executePhaseGeneration env a = (r, a')"
  shows "\<exists>pc'. r = Inr (PHASE_IMPLEMENTING, Some pc') \<or> r = Inr (FINALIZING, None)"
proof -
  from nt obtain x y where
    x: "fetchAllIssuesOp env (opCalls a) = Returns x"
    and y: "generateNextPhaseOp env (Suc (opCalls a)) = Returns y"
    unfolding env_never_throws_def by metis
  with g show ?thesis
    by (auto simp: executePhaseGeneration_def fetchAllIssues_def fetchPendingUserRequests_def
          generateNextPhase_def tick_def Let_def split: if_splits)
qed

lemma executePhaseImplementation_never_throws:
  assumes nt: "env_never_throws env" and i: "executePhaseImplementation env pc a = (r, a')"
  shows "r = Inr PHASE_GENERATING \<or> r = Inr FINALIZING"
proof (cases pc)
  case (Some p)
  with i have "implement_known_phase env p a = (r, a')"
    by (simp add: executePhaseImplementation_def)
  then show ?thesis by (rule implement_known_phase_never_throws [OF nt])
next
  case None
  show ?thesis
  proof (cases "currentPhase a")
    case (Some p)
    with i None have "implement_known_phase env p a = (r, a')"
      by (simp add: executePhaseImplementation_def)
    then show ?thesis by (rule implement_known_phase_never_throws [OF nt])
  next
    case cn: None
    obtain rg ag where g: "executePhaseGeneration env a = (rg, ag)"
      by (cases "executePhaseGeneration env a")
    from executePhaseGeneration_never_throws [OF nt g]
    consider p where "rg = Inr (PHASE_IMPLEMENTING, Some p)" | "rg = Inr (FINALIZING, None)"
      by blast
    then show ?thesis
    proof cases
      case 1
      with i None cn g have "implement_known_phase env p ag = (r, a')"
        by (simp add: executePhaseImplementation_def)
      then show ?thesis by (rule implement_known_phase_never_throws [OF nt])
    next
      case 2
      with i None cn g show ?thesis by (simp add: executePhaseImplementation_def)
    qed
  qed
qed

lemma loop_body_implementing:
  assumes b: "loop_body env PHASE_IMPLEMENTING pc a = (r, a')"
  shows "\<exists>evs. events a' = events a @ Executing PHASE_IMPLEMENTING # evs
           \<and> Executing FINALIZING \<notin> set evs
           \<and> length (filter is_implemented evs)
               + (case r of Inl _ \<Rightarrow> 0 | Inr (ds', _) \<Rightarrow> phases_left ds' a')
             \<le> phases_left PHASE_IMPLEMENTING a
           \<and> (env_never_throws env \<longrightarrow>
                (\<exists>pc'. r = Inr (PHASE_GENERATING, pc') \<or> r = Inr (FINALIZING, pc')))"
proof -
  let ?a0 = "emit (Executing PHASE_IMPLEMENTING) a"
  obtain ri where i: "executePhaseImplementation env pc ?a0 = (ri, a')"
    and r: "r = (case ri of Inl e \<Rightarrow> Inl e | Inr next \<Rightarrow> Inr (next, pc))"
    using b by (auto simp: loop_body_def split: sum.splits prod.splits)
  note f = executePhaseImplementation_fields [OF i] emit_fields [of "Executing PHASE_IMPLEMENTING" a]
  have nt: "ri = Inr PHASE_GENERATING \<or> ri = Inr FINALIZING" if "env_never_throws env"
    using executePhaseImplementation_never_throws [OF that i] .
  from f consider
      (none) "events a' = events ?a0" "phasesCounter a' = phasesCounter a" "ri \<noteq> Inr PHASE_GENERATING"
    | (one) n where "events a' = events ?a0 @ [PhaseImplemented n]"
        "phasesCounter a' = phasesCounter a - 1"
    by auto
  then show ?thesis
  proof cases
    case none
    with f r nt show ?thesis
      by (intro exI [of _ "[]"]) (auto simp: phases_left_def)
  next
    case one
    with f r nt show ?thesis
      by (intro exI [of _ "[PhaseImplemented n]"]) (auto simp: phases_left_def)
  qed
qed

lemma loop_body_finalizing:
  assumes b: "loop_body env FINALIZING pc a = (r, a')"
  shows "\<exists>evs. events a' = events a @ Executing FINALIZING # evs"
proof -
  let ?a0 = "emit (Executing FINALIZING) a"
  obtain rf where f: "executeFinalizing env ?a0 = (rf, a')"
    using b by (auto simp: loop_body_def split: sum.splits prod.splits)
  let ?a1 = "createNewIncompletePhase finalPhaseConcept (?a0\<lparr>mvpGenerated := True\<rparr>)"
  obtain r2 a2 where fa: "fetchAllIssues env ?a1 = (r2, a2)" by (cases "fetchAllIssues env ?a1")
  obtain r3 a3 where im: "implementPhase env finalPhaseConcept a2 = (r3, a3)"
    by (cases "implementPhase env finalPhaseConcept a2")
  have e1: "events ?a1 = events a @ [Executing FINALIZING]"
    by (simp add: createNewIncompletePhase_def emit_def)
  from f fa im fetchAllIssues_fields [OF fa] implementPhase_fields [OF im] e1
  show ?thesis
    by (auto simp: executeFinalizing_def Let_def emit_def split: if_splits sum.splits)
qed

lemma loop_body_reviewing:
  assumes b: "loop_body env REVIEWING pc a = (r, a')"
  shows "events a' = events a @ [Executing REVIEWING]
         \<and> (case r of Inl _ \<Rightarrow> True | Inr (ds', _) \<Rightarrow> ds' = IDLE)"
proof -
  let ?a0 = "emit (Executing REVIEWING) a"
  obtain r2 a2 where fa: "fetchAllIssues env (?a0\<lparr>reviewingInitiated := True\<rparr>) = (r2, a2)"
    by (cases "fetchAllIssues env (?a0\<lparr>reviewingInitiated := True\<rparr>)")
  from b fa fetchAllIssues_fields [OF fa]
  show ?thesis
    by (auto simp: loop_body_def executeReviewCycle_def Let_def emit_def
             split: if_splits sum.splits)
qed


lemma ibf_finalizing [simp]: "implemented_before_finalizing (Executing FINALIZING # evs) = 0"
  by (simp add: implemented_before_finalizing_def)

lemma ibf_append:
  "Executing FINALIZING \<notin> set xs \<Longrightarrow>
   implemented_before_finalizing (xs @ ys)
     = length (filter is_implemented xs) + implemented_before_finalizing ys"
  by (induction xs) (auto simp: implemented_before_finalizing_def)

lemma ibf_Nil [simp]: "implemented_before_finalizing [] = 0"
  by (simp add: implemented_before_finalizing_def)

lemma state_machine_loop_budget:
  "\<exists>new. events (state_machine_loop env ds pc a) = events a @ new
      \<and> implemented_before_finalizing new \<le> phases_left ds a
      \<and> (env_never_throws env \<and> (ds = PHASE_GENERATING \<or> ds = PHASE_IMPLEMENTING \<or> ds = FINALIZING)
           \<longrightarrow> Executing FINALIZING \<in> set new)"
proof (induction env ds pc a rule: state_machine_loop.induct)
  case (1 env ds pc a)
  obtain r a' where b: "loop_body env ds pc a = (r, a')" by (cases "loop_body env ds pc a")
  have unfold_Inl: "state_machine_loop env ds pc a = a'" if "ds \<noteq> IDLE" "r = Inl e" for e
    using that b by (subst state_machine_loop.simps) simp
  have unfold_Inr: "state_machine_loop env ds pc a = state_machine_loop env ds' pc' a'"
    if "ds \<noteq> IDLE" "r = Inr (ds', pc')" for ds' pc'
    using that b by (subst state_machine_loop.simps) simp
  have ih: "\<exists>new. events (state_machine_loop env ds' pc' a') = events a' @ new
      \<and> implemented_before_finalizing new \<le> phases_left ds' a'
      \<and> (env_never_throws env \<and> (ds' = PHASE_GENERATING \<or> ds' = PHASE_IMPLEMENTING \<or> ds' = FINALIZING)
           \<longrightarrow> Executing FINALIZING \<in> set new)"
    if "ds \<noteq> IDLE" "r = Inr (ds', pc')" for ds' pc'
    using "1.IH" [OF that(1) b [symmetric] that(2) refl] .
  show ?case
  proof (cases ds)
    case IDLE
    then show ?thesis
      by (subst state_machine_loop.simps) (simp add: phases_left_def)
  next
    case PHASE_GENERATING
    note g = loop_body_generating [OF b [unfolded PHASE_GENERATING]]
    show ?thesis
    proof (cases r)
      case (Inl e)
      with g unfold_Inl [of e] PHASE_GENERATING show ?thesis
        by (auto simp: implemented_before_finalizing_def)
    next
      case (Inr dp)
      obtain ds' pc' where dp: "dp = (ds', pc')" by (cases dp)
      from ih [of ds' pc'] Inr dp PHASE_GENERATING obtain new where
        n: "events (state_machine_loop env ds' pc' a') = events a' @ new"
           "implemented_before_finalizing new \<le> phases_left ds' a'"
           "env_never_throws env \<and> (ds' = PHASE_GENERATING \<or> ds' = PHASE_IMPLEMENTING \<or> ds' = FINALIZING)
              \<longrightarrow> Executing FINALIZING \<in> set new"
        by auto
      have "implemented_before_finalizing ([Executing PHASE_GENERATING] @ new)
            = implemented_before_finalizing new"
        by (subst ibf_append) simp_all
      with g n Inr dp unfold_Inr [of ds' pc'] PHASE_GENERATING show ?thesis
        by (intro exI [of _ "[Executing PHASE_GENERATING] @ new"]) auto
    qed
  next
    case PHASE_IMPLEMENTING
    from loop_body_implementing [OF b [unfolded PHASE_IMPLEMENTING]] obtain evs where
      g: "events a' = events a @ Executing PHASE_IMPLEMENTING # evs"
         "Executing FINALIZING \<notin> set evs"
         "length (filter is_implemented evs)
               + (case r of Inl _ \<Rightarrow> 0 | Inr (ds', _) \<Rightarrow> phases_left ds' a')
             \<le> phases_left PHASE_IMPLEMENTING a"
         "env_never_throws env \<longrightarrow>
                (\<exists>pc'. r = Inr (PHASE_GENERATING, pc') \<or> r = Inr (FINALIZING, pc'))"
      by blast
    show ?thesis
    proof (cases r)
      case (Inl e)
      have "implemented_before_finalizing ((Executing PHASE_IMPLEMENTING # evs) @ [])
            = length (filter is_implemented evs)"
        using g(2) by (subst ibf_append) simp_all
      with g unfold_Inl [of e] PHASE_IMPLEMENTING Inl show ?thesis
        by (intro exI [of _ "Executing PHASE_IMPLEMENTING # evs"]) auto
    next
      case (Inr dp)
      obtain ds' pc' where dp: "dp = (ds', pc')" by (cases dp)
      from ih [of ds' pc'] Inr dp PHASE_IMPLEMENTING obtain new where
        n: "events (state_machine_loop env ds' pc' a') = events a' @ new"
           "implemented_before_finalizing new \<le> phases_left ds' a'"
           "env_never_throws env \<and> (ds' = PHASE_GENERATING \<or> ds' = PHASE_IMPLEMENTING \<or> ds' = FINALIZING)
              \<longrightarrow> Executing FINALIZING \<in> set new"
        by auto
      have "implemented_before_finalizing ((Executing PHASE_IMPLEMENTING # evs) @ new)
            = length (filter is_implemented evs) + implemented_before_finalizing new"
        using g(2) by (subst ibf_append) simp_all
      with g n Inr dp unfold_Inr [of ds' pc'] PHASE_IMPLEMENTING show ?thesis
        by (intro exI [of _ "(Executing PHASE_IMPLEMENTING # evs) @ new"]) auto
    qed
  next
    case REVIEWING
    note g = loop_body_reviewing [OF b [unfolded REVIEWING]]
    show ?thesis
    proof (cases r)
      case (Inl e)
      with g unfold_Inl [of e] REVIEWING show ?thesis
        by (auto simp: implemented_before_finalizing_def phases_left_def)
    next
      case (Inr dp)
      obtain ds' pc' where dp: "dp = (ds', pc')" by (cases dp)
      with g Inr have i: "ds' = IDLE" by simp
      have "state_machine_loop env IDLE pc' a' = a'"
        by (subst state_machine_loop.simps) simp
      with g i Inr dp unfold_Inr [of ds' pc'] REVIEWING show ?thesis
        by (auto simp: implemented_before_finalizing_def phases_left_def)
    qed
  next
    case FINALIZING
    from loop_body_finalizing [OF b [unfolded FINALIZING]] obtain evs where
      g: "events a' = events a @ Executing FINALIZING # evs" by blast
    show ?thesis
    proof (cases r)
      case (Inl e)
      with g unfold_Inl [of e] FINALIZING show ?thesis
        by (intro exI [of _ "Executing FINALIZING # evs"]) (auto simp: phases_left_def)
    next
      case (Inr dp)
      obtain ds' pc' where dp: "dp = (ds', pc')" by (cases dp)
      from ih [of ds' pc'] Inr dp FINALIZING obtain new where
        n: "events (state_machine_loop env ds' pc' a') = events a' @ new"
        by auto
      with g Inr dp unfold_Inr [of ds' pc'] FINALIZING show ?thesis
        by (intro exI [of _ "Executing FINALIZING # evs @ new"]) (auto simp: phases_left_def)
    qed
  qed
qed

text \<open>
  Claim C1. In a run of the build loop during which no user input arrives, started with
  \<open>phasesCounter = MAX_PHASES\<close>, at most \<open>MAX_PHASES\<close> phases are implemented before the
  loop first executes \<open>FINALIZING\<close>, and when no operation throws the loop does reach
  \<open>FINALIZING\<close>. Every \<open>executePhaseImplementation\<close> that implements a phase lowers the
  counter by exactly one, and once the phase is implemented the next state is \<open>FINALIZING\<close>
  exactly when (\<open>lastPhase\<close> or counter \<open>\<le> 0\<close>) and no user input is pending, and
  \<open>PHASE_GENERATING\<close> otherwise. (The loop always terminates: it is a total function.)
\<close>

theorem build_loop_respects_phases_budget:
  "(phasesCounter a = MAX_PHASES \<longrightarrow>
      (\<exists>new. events (launchStateMachine env a) = events a @ new
         \<and> implemented_before_finalizing new \<le> nat MAX_PHASES
         \<and> (env_never_throws env \<longrightarrow> Executing FINALIZING \<in> set new)))
   \<and> (executePhaseImplementation env pc a = (r, a') \<longrightarrow>
        (events a' = events a \<and> phasesCounter a' = phasesCounter a)
        \<or> (\<exists>n. events a' = events a @ [PhaseImplemented n] \<and> phasesCounter a' = phasesCounter a - 1))
   \<and> (implement_known_phase env p a = (Inr nxt, a'') \<and> nxt \<noteq> IDLE \<longrightarrow>
        events a'' = events a @ [PhaseImplemented (phaseName p)]
        \<and> phasesCounter a'' = phasesCounter a - 1
        \<and> nxt = (if (lastPhase p \<or> phasesCounter a'' \<le> 0) \<and> pendingUserInputs a'' = []
                  then FINALIZING else PHASE_GENERATING))"
proof (intro conjI impI)
  assume c: "phasesCounter a = MAX_PHASES"
  have le: "phases_left ds (createNewIncompletePhase ph a) \<le> nat MAX_PHASES"
           "phases_left ds a \<le> nat MAX_PHASES" for ds ph
    using c by (auto simp: phases_left_def MAX_PHASES_def createNewIncompletePhase_def
                     split: CurrentDevState.splits)
  have ev: "events (createNewIncompletePhase ph a) = events a" for ph
    by (simp add: createNewIncompletePhase_def)
  have step: "\<exists>new. events (state_machine_loop env ds pc' b) = events a @ new
         \<and> implemented_before_finalizing new \<le> nat MAX_PHASES
         \<and> (env_never_throws env \<longrightarrow> Executing FINALIZING \<in> set new)"
    if "ds = PHASE_GENERATING \<or> ds = PHASE_IMPLEMENTING" "events b = events a"
       "phases_left ds b \<le> nat MAX_PHASES" for ds pc' b
  proof -
    from state_machine_loop_budget [of env ds pc' b] obtain new where
      n: "events (state_machine_loop env ds pc' b) = events b @ new"
         "implemented_before_finalizing new \<le> phases_left ds b"
         "env_never_throws env \<and> (ds = PHASE_GENERATING \<or> ds = PHASE_IMPLEMENTING \<or> ds = FINALIZING)
            \<longrightarrow> Executing FINALIZING \<in> set new"
      by blast
    from n(2) that(3) have "implemented_before_finalizing new \<le> nat MAX_PHASES"
      by (rule le_trans)
    with n(1,3) that(1,2) show ?thesis by auto
  qed
  show "\<exists>new. events (launchStateMachine env a) = events a @ new
         \<and> implemented_before_finalizing new \<le> nat MAX_PHASES
         \<and> (env_never_throws env \<longrightarrow> Executing FINALIZING \<in> set new)"
    unfolding launchStateMachine_def Let_def
    using step [of PHASE_IMPLEMENTING a] step [of PHASE_GENERATING a None]
      step [of PHASE_IMPLEMENTING "createNewIncompletePhase (initialPhase a) a"] le ev
    by simp
next
  assume "executePhaseImplementation env pc a = (r, a')"
  from executePhaseImplementation_fields [OF this]
  show "(events a' = events a \<and> phasesCounter a' = phasesCounter a)
        \<or> (\<exists>n. events a' = events a @ [PhaseImplemented n] \<and> phasesCounter a' = phasesCounter a - 1)"
    by blast
next
  assume k: "implement_known_phase env p a = (Inr nxt, a'') \<and> nxt \<noteq> IDLE"
  from implement_known_phase_fields [of env p a "Inr nxt" a''] k
  show "events a'' = events a @ [PhaseImplemented (phaseName p)]"
    "phasesCounter a'' = phasesCounter a - 1"
    "nxt = (if (lastPhase p \<or> phasesCounter a'' \<le> 0) \<and> pendingUserInputs a'' = []
                  then FINALIZING else PHASE_GENERATING)"
    by auto
qed

theorem build_loop_respects_phases_budget_witness:
  "(\<exists>new. events (launchStateMachine steady_env fresh_agent) = events fresh_agent @ new
      \<and> implemented_before_finalizing new \<le> nat MAX_PHASES
      \<and> Executing FINALIZING \<in> set new)
   \<and> phasesCounter (snd (implement_known_phase steady_env (initialPhase fresh_agent) fresh_agent))
       = phasesCounter fresh_agent - 1"
proof -
  have c: "phasesCounter fresh_agent = MAX_PHASES" by (simp add: fresh_agent_def)
  have nt: "env_never_throws steady_env" by (auto simp: env_never_throws_def steady_env_def)
  have k: "fst (implement_known_phase steady_env (initialPhase fresh_agent) fresh_agent)
           = Inr PHASE_GENERATING"
    by code_simp
  have k': "implement_known_phase steady_env (initialPhase fresh_agent) fresh_agent
            = (Inr PHASE_GENERATING,
               snd (implement_known_phase steady_env (initialPhase fresh_agent) fresh_agent))
            \<and> PHASE_GENERATING \<noteq> IDLE"
    using k by (simp add: prod_eq_iff)
  note t = build_loop_respects_phases_budget
    [where a = fresh_agent and env = steady_env and p = "initialPhase fresh_agent"
       and nxt = PHASE_GENERATING
       and a'' = "snd (implement_known_phase steady_env (initialPhase fresh_agent) fresh_agent)"]
  from t c nt have 1: "\<exists>new. events (launchStateMachine steady_env fresh_agent) = events fresh_agent @ new
      \<and> implemented_before_finalizing new \<le> nat MAX_PHASES
      \<and> Executing FINALIZING \<in> set new"
    by blast
  from t k' have 3: "phasesCounter (snd (implement_known_phase steady_env (initialPhase fresh_agent) fresh_agent))
       = phasesCounter fresh_agent - 1"
    by blast
  from 1 3 show ?thesis by blast
qed

subsection \<open>CSRF middleware\<close>

text \<open>
  Claim C8, as stated, fails at two inputs. A \<open>GET\<close> of \<open>https://vibesdk.example/api/apps\<close>
  (path \<open>/api/apps\<close>) answered with status 200 gets no token: the middleware tests
  \<open>c.req.url.startsWith('/api/')\<close>, and the URL starts with its scheme, so \<open>enforce\<close> is not
  called and the response leaves as the handler made it. A \<open>POST\<close> that carries
  \<open>Upgrade: websocket\<close> reaches the handler without any validation, even when validation
  would reject it.
\<close>

theorem csrf_claim_counterexample:
  "toUpperCase (req_method api_get_request) = ''GET''
   \<and> startsWith (url_path (req_url api_get_request)) ''/api/''
   \<and> csrf_middleware token_setting_enforce ok_handler api_get_request
       = (Inr \<lparr>res_status = 200, res_json = None, res_csrf_token = None\<rparr>, [NextCalled])
   \<and> toUpperCase (req_method upgrade_post_request) = ''POST''
   \<and> rejecting_enforce upgrade_post_request None = Inl (SecurityError CSRF_VIOLATION)
   \<and> csrf_middleware rejecting_enforce ok_handler upgrade_post_request
       = (Inr \<lparr>res_status = 200, res_json = None, res_csrf_token = None\<rparr>, [NextCalled])"
  by code_simp

text \<open>
  Claim C8, amended. For a request that is not a WebSocket upgrade and whose method is not
  \<open>GET\<close>, \<open>HEAD\<close> or \<open>OPTIONS\<close>, CSRF validation is the first call made; when it throws,
  the handler is not invoked, and a CSRF violation becomes the 403 JSON response with code
  \<open>CSRF_VIOLATION\<close>; when it passes, the handler runs next. For \<open>GET\<close>, \<open>HEAD\<close> and
  \<open>OPTIONS\<close> the handler runs first and no validation precedes it. A request with
  \<open>Upgrade: websocket\<close> goes straight to the handler.
\<close>

theorem csrf_validation_before_handler:
  "(\<not> is_websocket_upgrade req
      \<and> toUpperCase (req_method req) \<noteq> ''GET'' \<and> toUpperCase (req_method req) \<noteq> ''HEAD''
      \<and> toUpperCase (req_method req) \<noteq> ''OPTIONS'' \<longrightarrow>
        hd (snd (csrf_middleware enforce nxt req)) = EnforceCalled False
      \<and> (enforce req None = Inl (SecurityError CSRF_VIOLATION) \<longrightarrow>
            csrf_middleware enforce nxt req = (Inr csrf_violation_response, [EnforceCalled False]))
      \<and> (\<forall>e. enforce req None = Inl e \<longrightarrow>
            NextCalled \<notin> set (snd (csrf_middleware enforce nxt req)))
      \<and> (\<forall>r. enforce req None = Inr r \<longrightarrow>
            snd (csrf_middleware enforce nxt req) = [EnforceCalled False, NextCalled]))
   \<and> (\<not> is_websocket_upgrade req
      \<and> (toUpperCase (req_method req) = ''GET'' \<or> toUpperCase (req_method req) = ''HEAD''
          \<or> toUpperCase (req_method req) = ''OPTIONS'') \<longrightarrow>
        hd (snd (csrf_middleware enforce nxt req)) = NextCalled
      \<and> EnforceCalled False \<notin> set (snd (csrf_middleware enforce nxt req)))
   \<and> (is_websocket_upgrade req \<longrightarrow> csrf_middleware enforce nxt req = (nxt req, [NextCalled]))"
  by (auto simp: csrf_middleware_def csrf_catch_def Let_def
           split: sum.splits http_thrown.splits SecurityErrorType.splits)

theorem csrf_validation_before_handler_witness:
  "csrf_middleware rejecting_enforce ok_handler api_post_request
     = (Inr csrf_violation_response, [EnforceCalled False])
   \<and> snd (csrf_middleware token_setting_enforce ok_handler api_post_request)
     = [EnforceCalled False, NextCalled]
   \<and> hd (snd (csrf_middleware token_setting_enforce ok_handler api_get_request)) = NextCalled"
proof -
  have p: "\<not> is_websocket_upgrade api_post_request
      \<and> toUpperCase (req_method api_post_request) \<noteq> ''GET''
      \<and> toUpperCase (req_method api_post_request) \<noteq> ''HEAD''
      \<and> toUpperCase (req_method api_post_request) \<noteq> ''OPTIONS''"
    by code_simp
  have g: "\<not> is_websocket_upgrade api_get_request
      \<and> (toUpperCase (req_method api_get_request) = ''GET''
          \<or> toUpperCase (req_method api_get_request) = ''HEAD''
          \<or> toUpperCase (req_method api_get_request) = ''OPTIONS'')"
    by code_simp
  have r: "rejecting_enforce api_post_request None = Inl (SecurityError CSRF_VIOLATION)"
    by (simp add: rejecting_enforce_def)
  have t: "token_setting_enforce api_post_request None = Inr None"
    by (simp add: token_setting_enforce_def)
  from csrf_validation_before_handler [of api_post_request rejecting_enforce ok_handler] p r
  have 1: "csrf_middleware rejecting_enforce ok_handler api_post_request
     = (Inr csrf_violation_response, [EnforceCalled False])"
    by blast
  from csrf_validation_before_handler [of api_post_request token_setting_enforce ok_handler] p t
  have 2: "snd (csrf_middleware token_setting_enforce ok_handler api_post_request)
     = [EnforceCalled False, NextCalled]"
    by blast
  from csrf_validation_before_handler [of api_get_request token_setting_enforce ok_handler] g
  have 3: "hd (snd (csrf_middleware token_setting_enforce ok_handler api_get_request)) = NextCalled"
    by blast
  from 1 2 3 show ?thesis by blast
qed

subsection \<open>GitHub export\<close>

lemma scan_files_pending:
  "blobCreationPromises (foldl (scan_file api cache) scan files)
     = blobCreationPromises scan
       @ map (\<lambda>f. (hashContent api (file_content f), file_path f, file_content f))
           (filter (\<lambda>f. map_of cache (hashContent api (file_content f)) = None) files)"
  by (induction files arbitrary: scan) (auto simp: scan_file_def Let_def split: option.splits)

lemma settle_blobs_calls:
  "createBlobCalls (snd (snd (snd (foldl (settle_blob api) (cache, f2b, created, rem) pending))))
     = createBlobCalls rem @ map (\<lambda>p. snd (snd p)) pending
   \<and> fst (snd (snd (foldl (settle_blob api) (cache, f2b, created, rem) pending)))
     = created + length pending"
  by (induction pending arbitrary: cache f2b created rem) (auto simp: settle_blob_def Let_def)

lemma process_commit_blob_calls:
  "createBlobCalls (remote (process_commit api st c))
     = createBlobCalls (remote st)
       @ map file_content
           (filter (\<lambda>f. map_of (blobCache st) (hashContent api (file_content f)) = None)
              (commit_files c))"
proof (cases "commit_files c = []")
  case True
  then show ?thesis by (simp add: process_commit_def)
next
  case False
  let ?scan = "foldl (scan_file api (blobCache st))
                 \<lparr>fileToGitHubBlob = [], blobCreationPromises = [], reusedInScan = 0\<rparr> (commit_files c)"
  obtain cache' f2b' created' rem' where
    s: "foldl (settle_blob api)
          (blobCache st, fileToGitHubBlob ?scan, totalBlobsCreated st, remote st)
          (blobCreationPromises ?scan) = (cache', f2b', created', rem')"
    by (metis prod_cases4)
  from settle_blobs_calls [of api "blobCache st" "fileToGitHubBlob ?scan" "totalBlobsCreated st"
      "remote st" "blobCreationPromises ?scan"] s
  have "createBlobCalls rem' = createBlobCalls (remote st)
          @ map (\<lambda>p. snd (snd p)) (blobCreationPromises ?scan)"
    by simp
  then have "createBlobCalls rem' = createBlobCalls (remote st)
       @ map file_content
           (filter (\<lambda>f. map_of (blobCache st) (hashContent api (file_content f)) = None)
              (commit_files c))"
    by (simp add: scan_files_pending comp_def)
  with False s show ?thesis
    by (simp add: process_commit_def Let_def)
qed

text \<open>
  Claim C7. One remote blob per distinct content does not hold inside a commit: the cache
  is written when a creation is answered, after the commit's file loop has run. In general,
  processing a commit calls \<open>createBlob\<close> once for every file of the commit whose content
  hash is not in the cache as it stood when the commit's loop began. So for a single commit
  with two files of the same content, whatever the digest and the SHAs are, both files miss
  the cache and \<open>createBlob\<close> is called twice with that content, while the cache ends with
  one entry. Across commits the cache works as intended: three commits that keep one
  unchanged file create one blob and reuse it twice.
\<close>

theorem export_creates_duplicate_blob_within_commit:
  "createBlobCalls (remote (process_commit api st c))
     = createBlobCalls (remote st)
       @ map file_content
           (filter (\<lambda>f. map_of (blobCache st) (hashContent api (file_content f)) = None)
              (commit_files c))
   \<and> createBlobCalls (remote (snd (forcePushToGitHub api [twin_files_commit])))
     = [''export {}'', ''export {}'']
   \<and> totalBlobsCreated (snd (forcePushToGitHub api [twin_files_commit])) = 2
   \<and> totalBlobsReused (snd (forcePushToGitHub api [twin_files_commit])) = 0
   \<and> length (blobCache (snd (forcePushToGitHub api [twin_files_commit]))) = 1
   \<and> createBlobCalls (remote (snd (forcePushToGitHub api unchanged_file_commits))) = [''hello'']
   \<and> totalBlobsReused (snd (forcePushToGitHub api unchanged_file_commits)) = 2"
  using process_commit_blob_calls [of api st c]
  by (simp add: forcePushToGitHub_def process_commit_def scan_file_def settle_blob_def
        twin_files_commit_def unchanged_file_commits_def empty_remote_def Let_def)

subsection \<open>Versioned workspace\<close>

lemma status_codes_equal_iff:
  "(fst (snd (status_row repo p)) = fst (snd (snd (status_row repo p))))
     = (map_of (workdir repo) p = map_of (tree_of repo (resolve_HEAD repo)) p)"
  by (auto simp: status_row_def Let_def)

lemma has_changes_iff:
  "has_changes repo = (map_of (workdir repo) \<noteq> map_of (tree_of repo (resolve_HEAD repo)))"
proof -
  let ?H = "map_of (tree_of repo (resolve_HEAD repo))" and ?W = "map_of (workdir repo)"
  have "has_changes repo = (\<exists>p \<in> fst ` set (tree_of repo (resolve_HEAD repo)) \<union> fst ` set (index repo)
            \<union> fst ` set (workdir repo). ?W p \<noteq> ?H p)"
    by (auto simp: has_changes_def git_statusMatrix_def list_ex_iff status_codes_equal_iff)
  also have "\<dots> = (\<exists>p. ?W p \<noteq> ?H p)"
  proof
    assume "\<exists>p. ?W p \<noteq> ?H p"
    then obtain p where p: "?W p \<noteq> ?H p" ..
    then have "p \<in> dom ?W \<union> dom ?H" by (auto simp: dom_def)
    then have "p \<in> fst ` set (tree_of repo (resolve_HEAD repo)) \<union> fst ` set (index repo)
            \<union> fst ` set (workdir repo)"
      by (auto simp: dom_map_of_conv_image_fst)
    with p show "\<exists>p \<in> fst ` set (tree_of repo (resolve_HEAD repo)) \<union> fst ` set (index repo)
            \<union> fst ` set (workdir repo). ?W p \<noteq> ?H p" by blast
  qed blast
  also have "\<dots> = (?W \<noteq> ?H)" by (auto simp: fun_eq_iff)
  finally show ?thesis .
qed

lemma stage_one_fields:
  "objects (stage_one repo f) = objects repo \<and> HEAD (stage_one repo f) = HEAD repo
   \<and> branches (stage_one repo f) = branches repo
   \<and> map_of (index (stage_one repo f))
       = (map_of (index repo))(normalize_path (filePath f) \<mapsto> fileContents f)
   \<and> map_of (workdir (stage_one repo f))
       = (map_of (workdir repo))(normalize_path (filePath f) \<mapsto> fileContents f)"
  by (simp add: stage_one_def git_add_def fs_writeFile_def update_conv')

lemma stage_fields:
  "objects (stage repo files) = objects repo \<and> HEAD (stage repo files) = HEAD repo
   \<and> branches (stage repo files) = branches repo
   \<and> map_of (index (stage repo files))
       = map_of (index repo) ++ map_of (rev (map (\<lambda>f. (normalize_path (filePath f), fileContents f)) files))
   \<and> map_of (workdir (stage repo files))
       = map_of (workdir repo) ++ map_of (rev (map (\<lambda>f. (normalize_path (filePath f), fileContents f)) files))"
proof (induction files arbitrary: repo)
  case Nil
  then show ?case by (simp add: stage_def)
next
  case (Cons f fs)
  let ?g = "\<lambda>f. (normalize_path (filePath f), fileContents f)"
  have e: "stage repo (f # fs) = stage (stage_one repo f) fs" by (simp add: stage_def)
  note ih = Cons [of "stage_one repo f"] and one = stage_one_fields [of repo f]
  have add: "m(fst (?g f) \<mapsto> snd (?g f)) ++ map_of (rev (map ?g fs))
             = m ++ map_of (rev (map ?g (f # fs)))" for m :: "string \<rightharpoonup> string"
    by (rule ext) (auto simp: map_add_def split: option.splits)
  have "map_of (index (stage repo (f # fs)))
        = (map_of (index repo))(fst (?g f) \<mapsto> snd (?g f)) ++ map_of (rev (map ?g fs))"
    using e ih one by (simp only: fst_conv snd_conv)
  then have i: "map_of (index (stage repo (f # fs)))
        = map_of (index repo) ++ map_of (rev (map ?g (f # fs)))"
    by (simp only: add)
  have "map_of (workdir (stage repo (f # fs)))
        = (map_of (workdir repo))(fst (?g f) \<mapsto> snd (?g f)) ++ map_of (rev (map ?g fs))"
    using e ih one by (simp only: fst_conv snd_conv)
  then have w: "map_of (workdir (stage repo (f # fs)))
        = map_of (workdir repo) ++ map_of (rev (map ?g (f # fs)))"
    by (simp only: add)
  from e ih one have "objects (stage repo (f # fs)) = objects repo"
    "HEAD (stage repo (f # fs)) = HEAD repo" "branches (stage repo (f # fs)) = branches repo"
    by simp_all
  with i w show ?case by blast
qed

lemma staged_fields:
  "objects (staged repo files) = objects repo \<and> HEAD (staged repo files) = HEAD repo
   \<and> branches (staged repo files) = branches repo
   \<and> map_of (index (staged repo files))
       = map_of (index repo) ++ map_of (rev (map (\<lambda>f. (normalize_path (filePath f), fileContents f)) files))
   \<and> map_of (workdir (staged repo files))
       = map_of (workdir repo) ++ map_of (rev (map (\<lambda>f. (normalize_path (filePath f), fileContents f)) files))"
  using stage_fields [of repo files] by (simp add: staged_def)

lemma staged_head:
  "resolve_HEAD (staged repo files) = resolve_HEAD repo
   \<and> tree_of (staged repo files) oid = tree_of repo oid
   \<and> getHead (staged repo files) = getHead repo
   \<and> log (staged repo files) lim = log repo lim"
proof -
  have l: "log_from (staged repo files) n oid' = log_from repo n oid'" for n oid'
    by (induction n arbitrary: oid') (auto simp: staged_fields split: option.splits)
  show ?thesis
    by (simp add: resolve_HEAD_def tree_of_def getHead_def log_def git_log_def git_resolveRef_def
          staged_fields l cong: option.case_cong head_ref.case_cong)
qed

lemma staged_again:
  assumes "map_of (workdir r') = map_of (workdir (staged repo files))"
  shows "map_of (workdir (staged r' files)) = map_of (workdir r')"
proof -
  have "(m ++ g) ++ g = m ++ g" for m g :: "string \<rightharpoonup> string"
    by (rule ext) (auto simp: map_add_def split: option.splits)
  with assms show ?thesis by (simp add: staged_fields)
qed

lemma commit_unfold:
  "commit oid_of author now isoDate repo files msg =
     (if \<not> has_changes (staged repo files) then (None, staged repo files)
      else (Some (fst (git_commit oid_of (staged repo files)
                   (case msg of None \<Rightarrow> ''Auto-checkpoint ('' @ isoDate @ '')''
                    | Some t \<Rightarrow> if t = [] then ''Auto-checkpoint ('' @ isoDate @ '')'' else t)
                   author (now div 1000))),
            snd (git_commit oid_of (staged repo files)
                   (case msg of None \<Rightarrow> ''Auto-checkpoint ('' @ isoDate @ '')''
                    | Some t \<Rightarrow> if t = [] then ''Auto-checkpoint ('' @ isoDate @ '')'' else t)
                   author (now div 1000))))"
  by (simp add: commit_def staged_def Let_def split: prod.splits)

lemma git_commit_fields:
  assumes "git_commit oid_of repo m author ts = (oid, repo')"
  shows "index repo' = index repo \<and> workdir repo' = workdir repo \<and> HEAD repo' = HEAD repo
         \<and> map_of (objects repo') oid
             = Some \<lparr>gc_message = m, gc_author_name = fst author, gc_author_email = snd author,
                     gc_timestamp = ts, gc_parent = resolve_HEAD repo, gc_tree = index repo\<rparr>
         \<and> tree_of repo' (Some oid) = index repo"
  using assms
  by (cases "HEAD repo")
     (auto simp: git_commit_def Let_def tree_of_def update_conv')

lemma git_commit_on_branch:
  assumes "git_commit oid_of repo m author ts = (oid, repo')" and "HEAD repo = Symbolic b"
  shows "resolve_HEAD repo' = Some oid"
  using assms by (auto simp: git_commit_def Let_def resolve_HEAD_def update_conv')

lemma git_commit_detached:
  assumes "HEAD repo = Detached h"
  shows "resolve_HEAD (snd (git_commit oid_of repo m author ts)) = Some h"
  using assms by (simp add: git_commit_def Let_def resolve_HEAD_def)

text \<open>
  Index and working directory hold the same files after \<open>init\<close>, and \<open>stage\<close>, \<open>commit\<close> and
  \<open>reset\<close> keep it so; \<open>stage\<close> and \<open>commit\<close> also leave HEAD on the branch it points to.
\<close>

lemma index_matches_workdir:
  "map_of (index git_init) = map_of (workdir git_init)"
  "map_of (index repo) = map_of (workdir repo) \<Longrightarrow>
     map_of (index (stage repo files)) = map_of (workdir (stage repo files))"
  "map_of (index repo) = map_of (workdir repo) \<Longrightarrow>
     map_of (index (snd (commit oid_of author now isoDate repo files msg)))
       = map_of (workdir (snd (commit oid_of author now isoDate repo files msg)))"
  "map_of (index repo) = map_of (workdir repo) \<Longrightarrow> reset repo ref hard = Inr (x, repo') \<Longrightarrow>
     map_of (index repo') = map_of (workdir repo')"
proof -
  show "map_of (index git_init) = map_of (workdir git_init)"
    by (simp add: git_init_def)
next
  assume "map_of (index repo) = map_of (workdir repo)"
  then show "map_of (index (stage repo files)) = map_of (workdir (stage repo files))"
    by (simp add: stage_fields)
next
  assume iw: "map_of (index repo) = map_of (workdir repo)"
  let ?r1 = "staged repo files"
  let ?m = "case msg of None \<Rightarrow> ''Auto-checkpoint ('' @ isoDate @ '')''
                    | Some t \<Rightarrow> if t = [] then ''Auto-checkpoint ('' @ isoDate @ '')'' else t"
  from iw have s: "map_of (index ?r1) = map_of (workdir ?r1)" by (simp add: staged_fields)
  obtain oid r2 where g: "git_commit oid_of ?r1 ?m author (now div 1000) = (oid, r2)"
    by (cases "git_commit oid_of ?r1 ?m author (now div 1000)")
  from git_commit_fields [OF g] s g
  show "map_of (index (snd (commit oid_of author now isoDate repo files msg)))
       = map_of (workdir (snd (commit oid_of author now isoDate repo files msg)))"
    by (simp add: commit_unfold)
next
  assume "map_of (index repo) = map_of (workdir repo)" and "reset repo ref hard = Inr (x, repo')"
  then show "map_of (index repo') = map_of (workdir repo')"
    by (auto simp: reset_def git_writeRef_HEAD_def git_checkout_def git_listFiles_def Let_def
             split: option.splits if_splits)
qed

text \<open>
  While index and working directory hold the same files, the test of \<open>commit\<close>, HEAD code
  against \<open>row[2]\<close>, is the test "some row has head different from stage".
\<close>

lemma has_changes_head_vs_stage:
  assumes "map_of (index repo) = map_of (workdir repo)"
  shows "has_changes repo =
           (case git_statusMatrix repo of
              None \<Rightarrow> True
            | Some status \<Rightarrow> list_ex (\<lambda>row. fst (snd row) \<noteq> snd (snd (snd row))) status)"
  using assms
  by (simp add: has_changes_def git_statusMatrix_def list_ex_iff status_row_def Let_def)

lemma commit_stays_on_branch:
  "HEAD repo = Symbolic b \<Longrightarrow> HEAD (snd (commit oid_of author now isoDate repo files msg)) = Symbolic b"
proof -
  assume br: "HEAD repo = Symbolic b"
  let ?r1 = "staged repo files"
  let ?m = "case msg of None \<Rightarrow> ''Auto-checkpoint ('' @ isoDate @ '')''
                    | Some t \<Rightarrow> if t = [] then ''Auto-checkpoint ('' @ isoDate @ '')'' else t"
  obtain oid r2 where g: "git_commit oid_of ?r1 ?m author (now div 1000) = (oid, r2)"
    by (cases "git_commit oid_of ?r1 ?m author (now div 1000)")
  from git_commit_fields [OF g] g br
  show "HEAD (snd (commit oid_of author now isoDate repo files msg)) = Symbolic b"
    by (simp add: commit_unfold staged_fields)
qed

text \<open>
  While HEAD points to a branch, and index and working directory hold the same files, a
  \<open>commit\<close> that follows a \<open>commit\<close> of the same files returns \<open>null\<close> and leaves HEAD, the
  object store and the log as the first call left them; and the first call, when it commits,
  returns the oid of a stored commit to which HEAD then resolves.
\<close>

lemma commit_twice_on_branch:
  assumes br: "HEAD repo = Symbolic b"
    and iw: "map_of (index repo) = map_of (workdir repo)"
  shows "(let first = commit oid_of author now1 iso1 repo files msg1;
              second = commit oid_of author now2 iso2 (snd first) files msg2
          in fst second = None
             \<and> getHead (snd second) = getHead (snd first)
             \<and> objects (snd second) = objects (snd first)
             \<and> log (snd second) lim = log (snd first) lim
             \<and> (fst first \<noteq> None) = has_changes (staged repo files)
             \<and> (\<forall>oid. fst first = Some oid \<longrightarrow>
                   getHead (snd first) = Some oid \<and> map_of (objects (snd first)) oid \<noteq> None)
             \<and> (fst first = None \<longrightarrow>
                   objects (snd first) = objects repo \<and> getHead (snd first) = getHead repo))"
proof -
  let ?r1 = "staged repo files"
  let ?m = "case msg1 of None \<Rightarrow> ''Auto-checkpoint ('' @ iso1 @ '')''
                    | Some t \<Rightarrow> if t = [] then ''Auto-checkpoint ('' @ iso1 @ '')'' else t"
  let ?first = "commit oid_of author now1 iso1 repo files msg1"
  let ?second = "commit oid_of author now2 iso2 (snd ?first) files msg2"
  have iw1: "map_of (index ?r1) = map_of (workdir ?r1)"
    using iw by (simp add: staged_fields)
  have br1: "HEAD ?r1 = Symbolic b" using br by (simp add: staged_fields)
  have clean: "\<not> has_changes (staged (snd ?first) files)"
  proof (cases "has_changes ?r1")
    case False
    then have c: "snd ?first = ?r1" by (simp add: commit_unfold)
    have "map_of (workdir (staged ?r1 files)) = map_of (workdir ?r1)"
      by (rule staged_again) simp
    with False show ?thesis by (simp add: c has_changes_iff staged_head)
  next
    case True
    obtain oid r2 where g: "git_commit oid_of ?r1 ?m author (now1 div 1000) = (oid, r2)"
      by (cases "git_commit oid_of ?r1 ?m author (now1 div 1000)")
    from True g have c: "snd ?first = r2" by (simp add: commit_unfold)
    note f = git_commit_fields [OF g] and h = git_commit_on_branch [OF g br1]
    have "map_of (workdir (staged r2 files)) = map_of (workdir r2)"
      by (rule staged_again [of _ repo]) (simp add: f)
    with f h iw1 show ?thesis by (simp add: c has_changes_iff staged_head)
  qed
  then have s: "?second = (None, staged (snd ?first) files)"
    by (subst commit_unfold) simp
  have 1: "fst ?second = None" using s by simp
  have 2: "getHead (snd ?second) = getHead (snd ?first)"
    "objects (snd ?second) = objects (snd ?first)"
    "log (snd ?second) lim = log (snd ?first) lim"
    using s by (simp_all add: staged_head staged_fields)
  have 3: "(fst ?first \<noteq> None) = has_changes ?r1"
    by (simp add: commit_unfold)
  have 4: "getHead (snd ?first) = Some oid \<and> map_of (objects (snd ?first)) oid \<noteq> None"
    if "fst ?first = Some oid" for oid
  proof -
    from that have h: "has_changes ?r1"
      by (simp add: commit_unfold split: if_splits)
    with that have g: "git_commit oid_of ?r1 ?m author (now1 div 1000) = (oid, snd ?first)"
      by (simp add: commit_unfold prod_eq_iff)
    from git_commit_fields [OF g] git_commit_on_branch [OF g br1] show ?thesis
      by (simp add: getHead_def git_resolveRef_def)
  qed
  have 5: "objects (snd ?first) = objects repo \<and> getHead (snd ?first) = getHead repo"
    if "fst ?first = None"
    using that by (simp add: commit_unfold staged_head staged_fields split: if_splits)
  from 1 2 3 4 5 show ?thesis by (simp only: Let_def) blast
qed

lemma commit_keeps_detached_HEAD:
  "getHead (snd (commit oid_of author now isoDate (repo\<lparr>HEAD := Detached h\<rparr>) files msg)) = Some h"
proof -
  let ?r1 = "staged (repo\<lparr>HEAD := Detached h\<rparr>) files"
  have d: "HEAD ?r1 = Detached h" by (simp add: staged_fields)
  then have "resolve_HEAD ?r1 = Some h" by (simp add: resolve_HEAD_def)
  with git_commit_detached [OF d] show ?thesis
    by (simp add: commit_unfold getHead_def git_resolveRef_def)
qed

text \<open>
  Claim C2. Once \<open>reset\<close> has written an oid into HEAD, \<open>commit\<close> no longer moves HEAD:
  whatever the repository, the files and the message, HEAD resolves after the call to the oid
  it held before, so the status matrix of the next call is taken against the same old commit.
  After two commits and a reset to the first, two calls of \<open>commit\<close> in a row with the same
  file and the same content each create a commit: the first returns a new oid, and the second
  does not return \<open>null\<close> but another new oid, since the file still differs from HEAD. HEAD is
  the first commit before, between and after the two calls; four commit objects are stored,
  the last three all children of the first commit; \<open>log\<close> shows neither of the new commits.
  With one message given to both calls within one second, both return the oid of that commit.
  The same two calls on the repository before the reset, HEAD on \<open>main\<close>, commit once: the
  second returns \<open>null\<close>.
\<close>

theorem commit_twice_after_reset_commits_twice:
  "getHead (snd (commit oid_of author now isoDate (repo\<lparr>HEAD := Detached h\<rparr>) files msg)) = Some h
   \<and> HEAD after_reset = Detached ''oid-first''
   \<and> getHead after_reset = Some ''oid-first''
   \<and> fst first_after_reset = Some ''oid-Auto-checkpoint (2026-01-01T00:00:03.000Z)''
   \<and> getHead (snd first_after_reset) = Some ''oid-first''
   \<and> has_changes (staged (snd first_after_reset) checkpoint_files)
   \<and> fst second_after_reset = Some ''oid-Auto-checkpoint (2026-01-01T00:00:04.000Z)''
   \<and> getHead (snd second_after_reset) = Some ''oid-first''
   \<and> map (\<lambda>c. (fst c, gc_parent (snd c))) (objects (snd second_after_reset))
       = [(''oid-first'', None), (''oid-second'', Some ''oid-first''),
          (''oid-Auto-checkpoint (2026-01-01T00:00:03.000Z)'', Some ''oid-first''),
          (''oid-Auto-checkpoint (2026-01-01T00:00:04.000Z)'', Some ''oid-first'')]
   \<and> map ci_oid (log (snd second_after_reset) 50) = [''oid-second'', ''oid-first'']
   \<and> fst (commit sample_oid default_author 3000 ''t3'' after_reset checkpoint_files (Some ''third''))
       = Some ''oid-third''
   \<and> fst (commit sample_oid default_author 3400 ''t3''
             (snd (commit sample_oid default_author 3000 ''t3'' after_reset checkpoint_files
                     (Some ''third'')))
             checkpoint_files (Some ''third''))
       = Some ''oid-third''
   \<and> HEAD two_commits_repo = Symbolic ''main''
   \<and> fst first_on_main = Some ''oid-Auto-checkpoint (2026-01-01T00:00:03.000Z)''
   \<and> getHead (snd first_on_main) = Some ''oid-Auto-checkpoint (2026-01-01T00:00:03.000Z)''
   \<and> fst second_on_main = None
   \<and> getHead (snd second_on_main) = Some ''oid-Auto-checkpoint (2026-01-01T00:00:03.000Z)''"
proof -
  have a: "HEAD after_reset = Detached ''oid-first''"
    "getHead after_reset = Some ''oid-first''"
    by code_simp+
  have b: "fst first_after_reset = Some ''oid-Auto-checkpoint (2026-01-01T00:00:03.000Z)''"
    "getHead (snd first_after_reset) = Some ''oid-first''"
    "has_changes (staged (snd first_after_reset) checkpoint_files)"
    by code_simp+
  have c: "fst second_after_reset = Some ''oid-Auto-checkpoint (2026-01-01T00:00:04.000Z)''"
    "getHead (snd second_after_reset) = Some ''oid-first''"
    by code_simp+
  have d: "map (\<lambda>c. (fst c, gc_parent (snd c))) (objects (snd second_after_reset))
       = [(''oid-first'', None), (''oid-second'', Some ''oid-first''),
          (''oid-Auto-checkpoint (2026-01-01T00:00:03.000Z)'', Some ''oid-first''),
          (''oid-Auto-checkpoint (2026-01-01T00:00:04.000Z)'', Some ''oid-first'')]"
    "map ci_oid (log (snd second_after_reset) 50) = [''oid-second'', ''oid-first'']"
    by code_simp+
  have e: "fst (commit sample_oid default_author 3000 ''t3'' after_reset checkpoint_files (Some ''third''))
       = Some ''oid-third''"
    "fst (commit sample_oid default_author 3400 ''t3''
             (snd (commit sample_oid default_author 3000 ''t3'' after_reset checkpoint_files
                     (Some ''third'')))
             checkpoint_files (Some ''third''))
       = Some ''oid-third''"
    by code_simp+
  have f: "HEAD two_commits_repo = Symbolic ''main''"
    "fst first_on_main = Some ''oid-Auto-checkpoint (2026-01-01T00:00:03.000Z)''"
    "getHead (snd first_on_main) = Some ''oid-Auto-checkpoint (2026-01-01T00:00:03.000Z)''"
    "fst second_on_main = None"
    "getHead (snd second_on_main) = Some ''oid-Auto-checkpoint (2026-01-01T00:00:03.000Z)''"
    by code_simp+
  have g: "getHead (snd (commit oid_of author now isoDate (repo\<lparr>HEAD := Detached h\<rparr>) files msg)) = Some h"
    by (rule commit_keeps_detached_HEAD)
  from g a b c d e f show ?thesis by blast
qed

lemma log_from_objects:
  "objects r' = objects r \<Longrightarrow> log_from r' n oid = log_from r n oid"
  by (induction n arbitrary: oid) (auto split: option.splits)

lemma log_depends_on_main:
  "objects r' = objects r \<Longrightarrow> branches r' = branches r \<Longrightarrow> log r' lim = log r lim"
  using log_from_objects [of r' r lim]
  by (simp add: log_def git_log_def git_resolveRef_def cong: option.case_cong)

lemma reset_keeps_main:
  "reset repo ref hard = Inr (x, repo') \<Longrightarrow> objects repo' = objects repo \<and> branches repo' = branches repo"
  by (auto simp: reset_def git_writeRef_HEAD_def git_checkout_def git_listFiles_def Let_def
           split: option.splits if_splits)

lemma log_after_reset:
  "log (case reset repo ref hard of Inl _ \<Rightarrow> repo | Inr (_, repo') \<Rightarrow> repo') lim = log repo lim"
proof (cases "reset repo ref hard")
  case (Inl e)
  then show ?thesis by simp
next
  case (Inr r)
  obtain x repo' where r: "r = (x, repo')" by (cases r)
  from reset_keeps_main [of repo ref hard x repo'] Inr r log_depends_on_main [of repo' repo lim]
  show ?thesis by simp
qed

text \<open>
  Claim C5. \<open>log\<close> asks the library for the history of \<open>main\<close>, and \<open>reset\<close> rewrites
  HEAD with an oid without moving \<open>main\<close>: whatever the repository and the ref, \<open>log\<close>
  returns after a \<open>reset\<close> what it returned before. After two commits and a reset to the
  first, HEAD is the first commit and the history reachable from it is that commit alone,
  yet \<open>log\<close> still returns both commits.
\<close>

theorem log_ignores_reset:
  "log (case reset repo ref hard of Inl _ \<Rightarrow> repo | Inr (_, repo') \<Rightarrow> repo') lim = log repo lim
   \<and> map ci_oid (log two_commits_repo 50) = [''oid-second'', ''oid-first'']
   \<and> getHead two_commits_repo = Some ''oid-second''
   \<and> reset two_commits_repo ''oid-first'' True = Inr ((''oid-first'', 1), after_reset)
   \<and> getHead after_reset = Some ''oid-first''
   \<and> map ci_oid (history_from_HEAD after_reset 50) = [''oid-first'']
   \<and> map ci_oid (log after_reset 50) = [''oid-second'', ''oid-first'']"
proof -
  have "map ci_oid (log two_commits_repo 50) = [''oid-second'', ''oid-first'']
   \<and> getHead two_commits_repo = Some ''oid-second''
   \<and> reset two_commits_repo ''oid-first'' True = Inr ((''oid-first'', 1), after_reset)
   \<and> getHead after_reset = Some ''oid-first''
   \<and> map ci_oid (history_from_HEAD after_reset 50) = [''oid-first'']
   \<and> map ci_oid (log after_reset 50) = [''oid-second'', ''oid-first'']"
    by code_simp
  with log_after_reset [of repo ref hard lim] show ?thesis by blast
qed

end
